theory Spec2Isabelle
  imports Main "HOL-Library.Stream" "HOL-Library.Sublist"
begin

section \<open>Graph Builder: the 7x7 connection matrix\<close>

text \<open>
  \<^verbatim>\<open>int roomGraph[7][7]\<close> is a list of seven rows of seven C ints. A cell holds
  \<open>-1\<close> (unset) or the number of the room it connects to. The pseudo-random generator
  \<^verbatim>\<open>rand()\<close> is the stream of the values it returns (all non-negative); a function that
  draws takes the stream and returns what is left of it. A drawing loop that never finds
  an acceptable value does not return: its value is \<open>None\<close>.
\<close>

type_synonym graph = "int list list"

definition initializeGraph :: graph where
  "initializeGraph = replicate 7 (replicate 7 (- 1))"

text \<open>The counting loop shared by \<^verbatim>\<open>isGraphFull\<close> and \<^verbatim>\<open>canAddConnectionFrom\<close>:
  one pass over the seven cells of a row, adding one for each cell that is not \<open>-1\<close>.\<close>

definition countConnections :: "int list \<Rightarrow> nat" where
  "countConnections row = foldl (\<lambda>c y. if row ! y \<noteq> - 1 then c + 1 else c) 0 [0..<7]"

definition isGraphFull :: "graph \<Rightarrow> int" where
  "isGraphFull roomGraph =
     (let roomConnections = map (\<lambda>x. countConnections (roomGraph ! x)) [0..<7]
      in foldl (\<lambda>graphFull idx. if roomConnections ! idx < 3 then 0 else graphFull) 1 [0..<7])"

definition canAddConnectionFrom :: "graph \<Rightarrow> nat \<Rightarrow> int" where
  "canAddConnectionFrom rooms room = (if countConnections (rooms ! room) < 6 then 1 else 0)"

definition isSameRoom :: "nat \<Rightarrow> nat \<Rightarrow> int" where
  "isSameRoom roomA roomB = (if roomA = roomB then 1 else 0)"

text \<open>The two nested loops of \<^verbatim>\<open>connectionAlreadyExists\<close> only ever set
  \<^verbatim>\<open>connExists\<close> to 1 (the \<^verbatim>\<open>break\<close> leaves the inner loop alone), so the result is 1
  exactly when some pair of indices passes both tests.\<close>

definition connectionAlreadyExists :: "graph \<Rightarrow> nat \<Rightarrow> nat \<Rightarrow> int" where
  "connectionAlreadyExists roomGraph roomA roomB =
     (if list_ex (\<lambda>idxA. list_ex (\<lambda>idxB.
            roomGraph ! roomA ! idxA = int roomB \<and> roomGraph ! roomA ! idxA \<noteq> - 1
            \<and> roomGraph ! roomB ! idxB \<noteq> - 1 \<and> roomGraph ! roomB ! idxB = int roomA)
          [0..<7]) [0..<7]
      then 1 else 0)"

definition connectRoom :: "graph \<Rightarrow> nat \<Rightarrow> nat \<Rightarrow> graph" where
  "connectRoom roomGraph roomA roomB = roomGraph[roomA := (roomGraph ! roomA)[roomB := int roomB]]"

text \<open>The \<^verbatim>\<open>while (1)\<close> loop of \<^verbatim>\<open>addRandomConnection\<close> that draws \<^verbatim>\<open>roomA\<close>.\<close>

partial_function (option) drawRoomA :: "graph \<Rightarrow> nat stream \<Rightarrow> (nat \<times> nat stream) option" where
  "drawRoomA roomGraph rs =
     (let roomA = shd rs mod 7
      in if canAddConnectionFrom roomGraph roomA = 1 then Some (roomA, stl rs)
         else drawRoomA roomGraph (stl rs))"

text \<open>The \<^verbatim>\<open>do ... while\<close> loop that draws \<^verbatim>\<open>roomB\<close>.\<close>

partial_function (option) drawRoomB :: "graph \<Rightarrow> nat \<Rightarrow> nat stream \<Rightarrow> (nat \<times> nat stream) option" where
  "drawRoomB roomGraph roomA rs =
     (let roomB = shd rs mod 7
      in if canAddConnectionFrom roomGraph roomB = 0 \<or> isSameRoom roomA roomB = 1
            \<or> connectionAlreadyExists roomGraph roomA roomB = 1
         then drawRoomB roomGraph roomA (stl rs)
         else Some (roomB, stl rs))"

definition addRandomConnection :: "graph \<Rightarrow> nat stream \<Rightarrow> (graph \<times> nat stream) option" where
  "addRandomConnection roomGraph rs =
     (case drawRoomA roomGraph rs of
        None \<Rightarrow> None
      | Some (roomA, rs1) \<Rightarrow>
          (case drawRoomB roomGraph roomA rs1 of
             None \<Rightarrow> None
           | Some (roomB, rs2) \<Rightarrow>
               Some (connectRoom (connectRoom roomGraph roomA roomB) roomB roomA, rs2)))"

text \<open>The generation loop of \<^verbatim>\<open>main\<close>:
  \<^verbatim>\<open>while (isGraphFull(roomGraph) == 0) addRandomConnection(roomGraph);\<close>\<close>

partial_function (option) generateLoop :: "graph \<Rightarrow> nat stream \<Rightarrow> (graph \<times> nat stream) option" where
  "generateLoop roomGraph rs =
     (if isGraphFull roomGraph = 0
      then (case addRandomConnection roomGraph rs of
              None \<Rightarrow> None
            | Some (roomGraph', rs') \<Rightarrow> generateLoop roomGraph' rs')
      else Some (roomGraph, rs))"

definition generateGraph :: "nat stream \<Rightarrow> (graph \<times> nat stream) option" where
  "generateGraph rs = generateLoop initializeGraph rs"

text \<open>The room numbers a row records, in the order in which \<^verbatim>\<open>setupRoomFiles\<close> walks the
  row to write the connection lines.\<close>

definition roomNeighbours :: "graph \<Rightarrow> nat \<Rightarrow> int list" where
  "roomNeighbours roomGraph x =
     map (\<lambda>connection. roomGraph ! x ! connection)
       (filter (\<lambda>connection. roomGraph ! x ! connection \<noteq> - 1) [0..<7])"

subsection \<open>Invariant, fairness of the draws and reachable matrices\<close>

text \<open>The invariant of the generation loop: seven rows of seven cells, a cell of column
  \<open>b\<close> holds \<open>-1\<close> or \<open>b\<close>, the diagonal is unset, and a cell is set exactly when its
  mirror image is.\<close>

definition graphInv :: "graph \<Rightarrow> bool" where
  "graphInv g \<longleftrightarrow>
     length g = 7 \<and> (\<forall>a<7. length (g ! a) = 7)
     \<and> (\<forall>a<7. \<forall>b<7. g ! a ! b = - 1 \<or> g ! a ! b = int b)
     \<and> (\<forall>a<7. g ! a ! a = - 1)
     \<and> (\<forall>a<7. \<forall>b<7. g ! a ! b = - 1 \<longleftrightarrow> g ! b ! a = - 1)"

text \<open>Draws that keep producing each room number: every suffix of the stream holds a
  value of each residue modulo 7.\<close>

definition fairDraws :: "nat stream \<Rightarrow> bool" where
  "fairDraws rs \<longleftrightarrow> (\<forall>n. \<forall>k<7. \<exists>m. sdrop n rs !! m mod 7 = k)"

text \<open>The sum of the degrees, which every accepted edge raises by two.\<close>

definition totalConnections :: "graph \<Rightarrow> nat" where
  "totalConnections g = (\<Sum>a<7. countConnections (g ! a))"

text \<open>A concrete run of the loop: eleven edges, with one draw of the same room and one of
  an existing connection rejected on the way, and the matrix it returns.\<close>

definition witnessDraws :: "nat list" where
  "witnessDraws = [0,1, 8,1,2, 2,3, 3,4, 4,5, 5,6, 6,0, 0,1,3, 1,4, 2,5, 6,2]"

definition witnessGraph :: graph where
  "witnessGraph =
    [[-1, 1, -1, 3, -1, -1, 6],
     [0, -1, 2, -1, 4, -1, -1],
     [-1, 1, -1, 3, -1, 5, 6],
     [0, -1, 2, -1, 4, -1, -1],
     [-1, 1, -1, 3, -1, 5, -1],
     [-1, -1, 2, -1, 4, -1, 6],
     [0, -1, 2, -1, -1, 5, -1]]"

text \<open>The matrices the generation loop can pass through: the initial one, and any that
  an accepted pair of draws makes out of one that is not yet full.\<close>

inductive reachable :: "graph \<Rightarrow> bool" where
  reachable_init: "reachable initializeGraph"
| reachable_step: "reachable g \<Longrightarrow> isGraphFull g = 0 \<Longrightarrow> A < 7 \<Longrightarrow> B < 7 \<Longrightarrow>
     canAddConnectionFrom g A = 1 \<Longrightarrow>
     \<not> (canAddConnectionFrom g B = 0 \<or> isSameRoom A B = 1 \<or> connectionAlreadyExists g A B = 1) \<Longrightarrow>
     reachable (connectRoom (connectRoom g A B) B A)"

text \<open>The matrix after a first edge between rooms 0 and 1.\<close>

definition firstEdgeGraph :: graph where
  "firstEdgeGraph =
    [[-1, 1, -1, -1, -1, -1, -1],
     [0, -1, -1, -1, -1, -1, -1],
     [-1, -1, -1, -1, -1, -1, -1],
     [-1, -1, -1, -1, -1, -1, -1],
     [-1, -1, -1, -1, -1, -1, -1],
     [-1, -1, -1, -1, -1, -1, -1],
     [-1, -1, -1, -1, -1, -1, -1]]"

section \<open>Strings, faults and the room file format\<close>

text \<open>
  C strings are lists of bytes. What C leaves undefined is a fault of the model: a write
  past a buffer, a string that loses its terminating NUL, a NULL \<^verbatim>\<open>FILE*\<close> or string
  handed to the library, a write outside \<^verbatim>\<open>roomConnections\<close>, a \<^verbatim>\<open>currentRoom\<close> that was
  never set, and the write to \<^verbatim>\<open>userInputRoom[-1]\<close> that follows an end of input.
\<close>

datatype fault =
    NullFile
  | BufferOverflow
  | ConnectionSlot nat
  | NullString
  | NoStartRoom
  | EndOfInput

text \<open>\<^verbatim>\<open>strlen\<close> and every other string function see a buffer up to its first NUL.\<close>

definition cstring :: "string \<Rightarrow> string" where
  "cstring buf = takeWhile (\<lambda>c. c \<noteq> CHR 0x00) buf"

text \<open>\<^verbatim>\<open>strstr(hay, needle) != NULL\<close>: the needle occurs in the haystack.\<close>

fun strstr :: "string \<Rightarrow> string \<Rightarrow> bool" where
  "strstr [] needle = (needle = [])"
| "strstr (c # cs) needle = (prefix needle (c # cs) \<or> strstr cs needle)"

text \<open>\<^verbatim>\<open>printf("%d", n)\<close> for a count that is never negative.\<close>

fun showNat :: "nat \<Rightarrow> string" where
  "showNat n = (if n < 10 then [''0123456789'' ! n]
                else showNat (n div 10) @ [''0123456789'' ! (n mod 10)])"

declare showNat.simps [simp del]

text \<open>Copying a string into a \<^verbatim>\<open>char[cap]\<close> buffer that was zeroed before: the bytes and
  the terminating NUL must fit.\<close>

definition strcpyInto :: "nat \<Rightarrow> string \<Rightarrow> fault + string" where
  "strcpyInto cap s = (if length s < cap then Inr s else Inl BufferOverflow)"

text \<open>\<^verbatim>\<open>fgets(buf, cap, f)\<close> takes at most \<open>cap - 1\<close> bytes and stops after a newline;
  it returns NULL when nothing is left. The first component is what was read, the second
  what remains of the file.\<close>

fun fgetsLine :: "nat \<Rightarrow> string \<Rightarrow> string \<times> string" where
  "fgetsLine 0 s = ([], s)"
| "fgetsLine (Suc n) [] = ([], [])"
| "fgetsLine (Suc n) (c # cs) =
     (if c = CHR 0x0A then ([c], cs)
      else (case fgetsLine n cs of (l, r) \<Rightarrow> (c # l, r)))"

definition fgets :: "nat \<Rightarrow> string \<Rightarrow> (string \<times> string) option" where
  "fgets cap s = (if s = [] then None else Some (fgetsLine (cap - 1) s))"

subsection \<open>Graph Builder: \<^verbatim>\<open>setupRoomFiles\<close>\<close>

text \<open>The candidate pool of \<^verbatim>\<open>selectRooms\<close>.\<close>

definition rooms :: "string list" where
  "rooms = [''Dungeon'', ''Barracks'', ''Garden'', ''Game'', ''Medical'',
            ''Corridor'', ''Kitchen'', ''Stairs'', ''Basement'', ''Attic'']"

text \<open>
  The redraw loop over \<^verbatim>\<open>roomTypes\<close>. Each round draws a number, compares it with all
  seven entries, and stores it in \<^verbatim>\<open>roomTypes[fileNum]\<close> whether it was unique or not.
\<close>

partial_function (option) drawRoomType ::
    "int list \<Rightarrow> nat \<Rightarrow> nat stream \<Rightarrow> (int list \<times> nat stream) option" where
  "drawRoomType roomTypes fileNum rs =
     (let selectedRoom = int (shd rs mod 7);
          uniqueRoom = (if list_ex (\<lambda>x. roomTypes ! x = selectedRoom) [0..<7] then 0 else (1::int));
          roomTypes' = roomTypes[fileNum := selectedRoom]
      in if uniqueRoom = 0 then drawRoomType roomTypes' fileNum (stl rs)
         else Some (roomTypes', stl rs))"

definition roomTypeName :: "int \<Rightarrow> string" where
  "roomTypeName t = (if t = 0 then ''START_ROOM'' else if t = 6 then ''END_ROOM'' else ''MID_ROOM'')"

text \<open>
  One line goes through \<^verbatim>\<open>char fileOutput[25]\<close> (the type line through
  \<^verbatim>\<open>char roomType[25]\<close>) before it is printed.
\<close>

definition nameLine :: "string \<Rightarrow> fault + string" where
  "nameLine name = strcpyInto 25 (''ROOM NAME: '' @ name @ [CHR 0x0A])"

text \<open>The connection number is printed into \<^verbatim>\<open>char connectionChar[2]\<close>.\<close>

definition connectionLine :: "nat \<Rightarrow> string \<Rightarrow> fault + string" where
  "connectionLine connCounter name =
     (case strcpyInto 2 (showNat connCounter) of
        Inl e \<Rightarrow> Inl e
      | Inr connectionChar \<Rightarrow>
          strcpyInto 25 (''CONNECTION '' @ connectionChar @ '': '' @ name @ [CHR 0x0A]))"

fun connectionLines :: "nat \<Rightarrow> string list \<Rightarrow> fault + string" where
  "connectionLines connCounter [] = Inr []"
| "connectionLines connCounter (name # names) =
     (case connectionLine (connCounter + 1) name of
        Inl e \<Rightarrow> Inl e
      | Inr line \<Rightarrow>
          (case connectionLines (connCounter + 1) names of
             Inl e \<Rightarrow> Inl e
           | Inr lines \<Rightarrow> Inr (line @ lines)))"

definition typeLine :: "string \<Rightarrow> fault + string" where
  "typeLine ty = strcpyInto 25 (''ROOM TYPE: '' @ ty @ [CHR 0x0A])"

text \<open>The text of one room file: the name line, the connection lines numbered from 1 in
  the order given, the type line.\<close>

definition roomFileText :: "string \<Rightarrow> string list \<Rightarrow> string \<Rightarrow> fault + string" where
  "roomFileText name connections ty =
     (case nameLine name of
        Inl e \<Rightarrow> Inl e
      | Inr l1 \<Rightarrow>
          (case connectionLines 0 connections of
             Inl e \<Rightarrow> Inl e
           | Inr l2 \<Rightarrow>
               (case typeLine ty of
                  Inl e \<Rightarrow> Inl e
                | Inr l3 \<Rightarrow> Inr (l1 @ l2 @ l3))))"

text \<open>
  The loop over \<^verbatim>\<open>fileNum\<close>. \<open>opens fileNum\<close> tells whether \<^verbatim>\<open>fopen\<close> succeeded for
  that file; when it did not, the function still prints to the NULL \<^verbatim>\<open>FILE*\<close>. The
  name line is written first, then the type is drawn, then the connection lines and the
  type line follow. The state is \<^verbatim>\<open>roomTypes\<close>, the texts written so far and the rest of
  the draws.
\<close>

fun setupLoop ::
    "(nat \<Rightarrow> bool) \<Rightarrow> string list \<Rightarrow> graph \<Rightarrow> nat list \<Rightarrow> int list \<times> string list \<times> nat stream
      \<Rightarrow> (fault + int list \<times> string list \<times> nat stream) option" where
  "setupLoop opens selectedRooms roomGraph [] st = Some (Inr st)"
| "setupLoop opens selectedRooms roomGraph (fileNum # rest) (roomTypes, files, rs) =
     (if \<not> opens fileNum then Some (Inl NullFile)
      else
        (case nameLine (selectedRooms ! fileNum) of
           Inl e \<Rightarrow> Some (Inl e)
         | Inr l1 \<Rightarrow>
             (case drawRoomType roomTypes fileNum rs of
                None \<Rightarrow> None
              | Some (roomTypes', rs') \<Rightarrow>
                  (case connectionLines 0
                          (map (\<lambda>v. selectedRooms ! nat v) (roomNeighbours roomGraph fileNum)) of
                     Inl e \<Rightarrow> Some (Inl e)
                   | Inr l2 \<Rightarrow>
                       (case typeLine (roomTypeName (roomTypes' ! fileNum)) of
                          Inl e \<Rightarrow> Some (Inl e)
                        | Inr l3 \<Rightarrow>
                            setupLoop opens selectedRooms roomGraph rest
                              (roomTypes', files @ [l1 @ l2 @ l3], rs'))))))"

definition setupRoomFiles ::
    "(nat \<Rightarrow> bool) \<Rightarrow> string list \<Rightarrow> graph \<Rightarrow> nat stream
      \<Rightarrow> (fault + int list \<times> string list \<times> nat stream) option" where
  "setupRoomFiles opens selectedRooms roomGraph rs =
     setupLoop opens selectedRooms roomGraph [0..<7] (replicate 7 (- 1), [], rs)"

subsection \<open>Adventure Runner: \<^verbatim>\<open>readFile\<close>\<close>

text \<open>\<^verbatim>\<open>struct room\<close>: a NULL pointer is \<open>None\<close>; \<^verbatim>\<open>roomConnections\<close> has six slots.\<close>

record room =
  roomName :: "string option"
  roomType :: "string option"
  roomConnections :: "string option list"

definition initializeData :: room where
  "initializeData = \<lparr>roomName = None, roomType = None, roomConnections = replicate 6 None\<rparr>"

text \<open>The copy loops of \<^verbatim>\<open>readFile\<close>: every byte from position \<open>i\<close> on that is not a
  newline.\<close>

definition payload :: "nat \<Rightarrow> string \<Rightarrow> string" where
  "payload i lineRead = filter (\<lambda>c. c \<noteq> CHR 0x0A) (drop i lineRead)"

text \<open>The body of the \<^verbatim>\<open>while (fgets(...))\<close> loop, on one line that was read.\<close>

definition readLine :: "room \<times> nat \<Rightarrow> string \<Rightarrow> fault + room \<times> nat" where
  "readLine st lineRead =
     (case st of (roomObj, connNumber) \<Rightarrow>
        if strstr lineRead ''ROOM NAME:'' then
          (case strcpyInto 11 (payload 11 lineRead) of
             Inl e \<Rightarrow> Inl e
           | Inr name \<Rightarrow> Inr (roomObj\<lparr>roomName := Some name\<rparr>, connNumber))
        else if strstr lineRead ''ROOM TYPE:'' then
          (case strcpyInto 11 (payload 11 lineRead) of
             Inl e \<Rightarrow> Inl e
           | Inr ty \<Rightarrow> Inr (roomObj\<lparr>roomType := Some ty\<rparr>, connNumber))
        else if strstr lineRead ''CONNECTION'' then
          (case strcpyInto 10 (payload 14 lineRead) of
             Inl e \<Rightarrow> Inl e
           | Inr roomConn \<Rightarrow>
               if connNumber < 6
               then Inr (roomObj\<lparr>roomConnections :=
                           (roomConnections roomObj)[connNumber := Some roomConn]\<rparr>,
                         connNumber + 1)
               else Inl (ConnectionSlot connNumber))
        else Inr (roomObj, connNumber))"

text \<open>The lines \<^verbatim>\<open>fgets\<close> hands out one after the other until the end of the file.
  (A buffer of one byte would never make progress; the programs use 255 and 256.)\<close>

function fileLines :: "nat \<Rightarrow> string \<Rightarrow> string list" where
  "fileLines cap file =
     (if cap \<le> 1 then []
      else (case fgets cap file of
              None \<Rightarrow> []
            | Some (lineRead, rest) \<Rightarrow> lineRead # fileLines cap rest))"
  by pat_completeness auto

lemma fgetsLine_length: "length (fst (fgetsLine n s)) + length (snd (fgetsLine n s)) = length s"
  by (induction n s rule: fgetsLine.induct) (auto split: prod.splits)

lemma fgetsLine_rest_le: "length (snd (fgetsLine n s)) \<le> length s"
  using fgetsLine_length[of n s] by simp

lemma fgetsLine_progress: "0 < n \<Longrightarrow> s \<noteq> [] \<Longrightarrow> length (snd (fgetsLine n s)) < length s"
proof -
  assume "0 < n" "s \<noteq> []"
  then obtain m c cs where n: "n = Suc m" and s: "s = c # cs"
    by (cases n; cases s) auto
  show ?thesis
    using fgetsLine_rest_le[of m cs] unfolding n s
    by (simp split: prod.splits) (metis le_imp_less_Suc snd_conv)
qed

termination fileLines
  by (relation "measure (\<lambda>(cap, file). length file)")
     (auto simp: fgets_def split: if_splits dest!: arg_cong[where f = snd]
        intro!: fgetsLine_progress)

declare fileLines.simps [simp del]

fun readLoop :: "room \<times> nat \<Rightarrow> string list \<Rightarrow> fault + room \<times> nat" where
  "readLoop st [] = Inr st"
| "readLoop st (lineRead # rest) =
     (case readLine st (cstring lineRead) of
        Inl e \<Rightarrow> Inl e
      | Inr st' \<Rightarrow> readLoop st' rest)"

definition readFile :: "string \<Rightarrow> fault + room" where
  "readFile file =
     (case readLoop (initializeData, 0) (fileLines 255 file) of
        Inl e \<Rightarrow> Inl e
      | Inr (roomObj, connNumber) \<Rightarrow> Inr roomObj)"

subsection \<open>The role table while it is filled, and a concrete run\<close>

text \<open>\<^verbatim>\<open>roomTypes\<close> when the first \<open>k\<close> files are written: their entries are pairwise
  distinct numbers from 0 to 6, the others are still \<open>-1\<close>.\<close>

definition typesInv :: "nat \<Rightarrow> int list \<Rightarrow> bool" where
  "typesInv k roomTypes \<longleftrightarrow>
     length roomTypes = 7
     \<and> (\<forall>i<k. 0 \<le> roomTypes ! i \<and> roomTypes ! i < 7)
     \<and> (\<forall>i<k. \<forall>j<k. i \<noteq> j \<longrightarrow> roomTypes ! i \<noteq> roomTypes ! j)
     \<and> (\<forall>i<7. k \<le> i \<longrightarrow> roomTypes ! i = - 1)"

text \<open>Seven selected names, and the seven texts \<^verbatim>\<open>setupRoomFiles\<close> writes for them and
  the matrix above when the types drawn are 3, 0, 5, 6, 1, 2, 4.\<close>

definition witnessNames :: "string list" where
  "witnessNames = [''Dungeon'', ''Barracks'', ''Garden'', ''Game'', ''Medical'', ''Corridor'', ''Kitchen'']"

definition witnessFiles :: "string list" where
  "witnessFiles =
    [''ROOM NAME: Dungeon\<newline>CONNECTION 1: Barracks\<newline>CONNECTION 2: Game\<newline>CONNECTION 3: Kitchen\<newline>ROOM TYPE: MID_ROOM\<newline>'',
     ''ROOM NAME: Barracks\<newline>CONNECTION 1: Dungeon\<newline>CONNECTION 2: Garden\<newline>CONNECTION 3: Medical\<newline>ROOM TYPE: START_ROOM\<newline>'',
     ''ROOM NAME: Garden\<newline>CONNECTION 1: Barracks\<newline>CONNECTION 2: Game\<newline>CONNECTION 3: Corridor\<newline>CONNECTION 4: Kitchen\<newline>ROOM TYPE: MID_ROOM\<newline>'',
     ''ROOM NAME: Game\<newline>CONNECTION 1: Dungeon\<newline>CONNECTION 2: Garden\<newline>CONNECTION 3: Medical\<newline>ROOM TYPE: END_ROOM\<newline>'',
     ''ROOM NAME: Medical\<newline>CONNECTION 1: Barracks\<newline>CONNECTION 2: Game\<newline>CONNECTION 3: Corridor\<newline>ROOM TYPE: MID_ROOM\<newline>'',
     ''ROOM NAME: Corridor\<newline>CONNECTION 1: Garden\<newline>CONNECTION 2: Medical\<newline>CONNECTION 3: Kitchen\<newline>ROOM TYPE: MID_ROOM\<newline>'',
     ''ROOM NAME: Kitchen\<newline>CONNECTION 1: Dungeon\<newline>CONNECTION 2: Garden\<newline>CONNECTION 3: Corridor\<newline>ROOM TYPE: MID_ROOM\<newline>'']"

subsection \<open>Connection lines of a room file\<close>

text \<open>A line that reaches the third branch of the loop body of \<^verbatim>\<open>readFile\<close>, and the
  lines of a file that do.\<close>

definition isConnectionLine :: "string \<Rightarrow> bool" where
  "isConnectionLine lineRead \<longleftrightarrow>
     (if strstr lineRead ''ROOM NAME:'' then False
      else if strstr lineRead ''ROOM TYPE:'' then False
      else strstr lineRead ''CONNECTION'')"

definition connectionLinesOf :: "string \<Rightarrow> string list" where
  "connectionLinesOf file = filter isConnectionLine (map cstring (fileLines 255 file))"

text \<open>A file with seven connection lines and one with two.\<close>

definition sevenConnections :: string where
  "sevenConnections = ''ROOM NAME: Attic\<newline>CONNECTION 1: Dungeon\<newline>CONNECTION 2: Barracks\<newline>CONNECTION 3: Garden\<newline>CONNECTION 4: Game\<newline>CONNECTION 5: Medical\<newline>CONNECTION 6: Corridor\<newline>CONNECTION 7: Kitchen\<newline>ROOM TYPE: MID_ROOM\<newline>''"

definition twoConnections :: string where
  "twoConnections = ''ROOM NAME: Attic\<newline>CONNECTION 1: Dungeon\<newline>CONNECTION 2: Barracks\<newline>ROOM TYPE: END_ROOM\<newline>''"

text \<open>What the round trip needs of a name, and every name of the pool has: at most eight
  bytes, no newline, no NUL and no capital R (the labels of the name and type lines
  begin with one).\<close>

definition poolName :: "string \<Rightarrow> bool" where
  "poolName n \<longleftrightarrow> length n \<le> 8 \<and> CHR 0x0A \<notin> set n \<and> CHR 0x00 \<notin> set n \<and> CHR ''R'' \<notin> set n"

section \<open>Adventure Runner: choosing the directory\<close>

text \<open>
  A directory entry as \<^verbatim>\<open>mostRecentRooms\<close> sees it: the name \<^verbatim>\<open>readdir\<close> returns and the
  modification time \<^verbatim>\<open>stat\<close> reports for it (\<^verbatim>\<open>stat\<close> is taken to succeed on an entry
  that was just listed). \<^verbatim>\<open>st_mtime\<close> is a \<^verbatim>\<open>time_t\<close>, an integer number of seconds; the
  program casts it to \<^verbatim>\<open>int\<close>, which keeps its low 32 bits as a signed number. The name is
  copied into \<^verbatim>\<open>char dirName[128]\<close>.
\<close>

type_synonym dirent = "string \<times> int"

fun scanDir :: "dirent list \<Rightarrow> int \<times> string \<Rightarrow> fault + int \<times> string" where
  "scanDir [] st = Inr st"
| "scanDir ((d_name, st_mtime) # entries) (newestModified, dirName) =
     (if strstr d_name ''trompj.rooms.'' then
        (if signed_take_bit 31 st_mtime > newestModified then
           (case strcpyInto 128 d_name of
              Inl e \<Rightarrow> Inl e
            | Inr name \<Rightarrow> scanDir entries (signed_take_bit 31 st_mtime, name))
         else scanDir entries (newestModified, dirName))
      else scanDir entries (newestModified, dirName))"

text \<open>The directory is \<open>None\<close> when \<^verbatim>\<open>opendir(".")\<close> fails; \<^verbatim>\<open>dirName\<close> then stays empty.\<close>

definition mostRecentRooms :: "dirent list option \<Rightarrow> fault + string" where
  "mostRecentRooms dir =
     (case dir of
        None \<Rightarrow> Inr []
      | Some entries \<Rightarrow>
          (case scanDir entries (- 1, []) of
             Inl e \<Rightarrow> Inl e
           | Inr (newestModified, dirName) \<Rightarrow> Inr dirName))"

section \<open>Adventure Runner: the game loop\<close>

text \<open>
  The state of \<^verbatim>\<open>runGameDriver\<close>. \<^verbatim>\<open>currentRoom\<close> points into \<^verbatim>\<open>roomArr\<close> and is kept as
  the index it points to. \<^verbatim>\<open>stepCount\<close> only counts up from 0 and is kept as a natural
  number. \<open>printed\<close> collects what was printed, one entry for each \<^verbatim>\<open>printf\<close>; standard
  input is the string of bytes still to be read. \<open>clock k\<close> is the text the worker
  thread writes to \<^verbatim>\<open>currentTime.txt\<close> at the \<open>k\<close>-th time request.
\<close>

record game =
  currentRoom :: nat
  stepCount :: nat
  userInputRoom :: string
  visitedRooms :: "string list"
  printed :: "string list"
  timeRequests :: nat

text \<open>The search for the start room: the last room typed \<^verbatim>\<open>START_ROOM\<close> wins, and
  \<^verbatim>\<open>strcmp\<close> reads every room's type.\<close>

fun findStart :: "room list \<Rightarrow> nat list \<Rightarrow> nat option \<Rightarrow> fault + nat option" where
  "findStart roomArr [] cur = Inr cur"
| "findStart roomArr (roomNum # rest) cur =
     (case roomType (roomArr ! roomNum) of
        None \<Rightarrow> Inl NullString
      | Some ty \<Rightarrow> findStart roomArr rest (if ty = ''START_ROOM'' then Some roomNum else cur))"

text \<open>The printing loop over the connection slots: it stops at the first NULL slot and
  ends the list with a full stop.\<close>

fun printConnections :: "string option list \<Rightarrow> string list" where
  "printConnections [] = []"
| "printConnections (None # slots) = []"
| "printConnections (Some name # slots) =
     ('' '' @ name)
     # (case slots of [] \<Rightarrow> ''.'' | None # _ \<Rightarrow> ''.'' | Some _ # _ \<Rightarrow> '','')
     # printConnections slots"

definition showRoom :: "room list \<Rightarrow> game \<Rightarrow> fault + game" where
  "showRoom roomArr s =
     (if userInputRoom s \<noteq> ''time'' then
        (case roomName (roomArr ! currentRoom s) of
           None \<Rightarrow> Inl NullString
         | Some name \<Rightarrow>
             Inr (s\<lparr>printed := printed s
                    @ [''CURRENT LOCATION: '' @ name @ [CHR 0x0A], ''POSSIBLE CONNECTIONS:'']
                    @ printConnections (roomConnections (roomArr ! currentRoom s))
                    @ [[CHR 0x0A], ''WHERE TO? >'']\<rparr>))
      else Inr (s\<lparr>printed := printed s @ [''WHERE TO? >'']\<rparr>))"

text \<open>
  Reading the command: \<^verbatim>\<open>fgets\<close> into \<^verbatim>\<open>char buffer[256]\<close>, \<^verbatim>\<open>strcpy\<close> into
  \<^verbatim>\<open>char userInputRoom[10]\<close>, then the last byte of the copy is overwritten with NUL,
  whatever it is. At the end of the input \<^verbatim>\<open>buffer\<close> stays empty and the NUL goes to
  \<^verbatim>\<open>userInputRoom[-1]\<close>. The result is the command and the input that remains.
\<close>

definition promptInput :: "string \<Rightarrow> fault + string \<times> string" where
  "promptInput stdin =
     (case fgets 256 stdin of
        None \<Rightarrow> Inl EndOfInput
      | Some (buffer, rest) \<Rightarrow>
          (case strcpyInto 10 (cstring buffer) of
             Inl e \<Rightarrow> Inl e
           | Inr copied \<Rightarrow> if copied = [] then Inl EndOfInput else Inr (butlast copied, rest)))"

text \<open>The slots the matching loop walks: those before the first NULL.\<close>

definition connectionNames :: "room \<Rightarrow> string list" where
  "connectionNames r = map the (takeWhile (\<lambda>c. c \<noteq> None) (roomConnections r))"

text \<open>The inner loop over \<^verbatim>\<open>roomArr\<close> after a connection matched: every room whose name
  equals the command becomes the current room and counts as a step.\<close>

fun enterRooms :: "room list \<Rightarrow> nat list \<Rightarrow> game \<times> int \<Rightarrow> fault + game \<times> int" where
  "enterRooms roomArr [] st = Inr st"
| "enterRooms roomArr (roomNum # rest) (s, roomFound) =
     (case roomName (roomArr ! roomNum) of
        None \<Rightarrow> Inl NullString
      | Some name \<Rightarrow>
          if name = userInputRoom s
          then enterRooms roomArr rest
                 (s\<lparr>currentRoom := roomNum, stepCount := stepCount s + 1,
                    visitedRooms := visitedRooms s @ [userInputRoom s]\<rparr>, 1)
          else enterRooms roomArr rest (s, roomFound))"

text \<open>\<^verbatim>\<open>timeProcessing\<close>, as the main thread sees it once the worker is joined: the first
  line of the time file is printed, followed by a newline.\<close>

definition timeProcessing :: "(nat \<Rightarrow> string) \<Rightarrow> game \<Rightarrow> game" where
  "timeProcessing clock s =
     s\<lparr>printed := printed s @ [cstring (fst (fgetsLine 79 (clock (timeRequests s)))) @ [CHR 0x0A]],
       timeRequests := timeRequests s + 1\<rparr>"

definition apology :: string where
  "apology = ''HUH? I DON'' @ [CHR 0xE2, CHR 0x80, CHR 0x99]
               @ ''T UNDERSTAND THAT ROOM. TRY AGAIN.'' @ [CHR 0x0A, CHR 0x0A]"

text \<open>The rest of the loop body, once the command is in \<^verbatim>\<open>userInputRoom\<close>. The boolean
  tells whether the \<^verbatim>\<open>break\<close> after the victory message was taken.\<close>

definition playTurn :: "room list \<Rightarrow> (nat \<Rightarrow> string) \<Rightarrow> game \<Rightarrow> fault + game \<times> bool" where
  "playTurn roomArr clock s =
     (case (if userInputRoom s \<in> set (connectionNames (roomArr ! currentRoom s))
            then enterRooms roomArr [0..<7] (s, 0) else Inr (s, 0)) of
        Inl e \<Rightarrow> Inl e
      | Inr (s1, roomFound) \<Rightarrow>
          (let s2 = s1\<lparr>printed := printed s1 @ [[CHR 0x0A]]\<rparr> in
           if roomFound = 0 \<and> userInputRoom s2 = ''time'' then Inr (timeProcessing clock s2, False)
           else if roomFound = 0 then Inr (s2\<lparr>printed := printed s2 @ [apology]\<rparr>, False)
           else
             (case roomType (roomArr ! currentRoom s2) of
                None \<Rightarrow> Inl NullString
              | Some ty \<Rightarrow>
                  if ty = ''END_ROOM''
                  then Inr (s2\<lparr>printed := printed s2
                              @ [''YOU HAVE FOUND THE END ROOM. CONGRATULATIONS!'' @ [CHR 0x0A],
                                 ''YOU TOOK '' @ showNat (stepCount s2)
                                   @ '' STEPS. YOUR PATH TO VICTORY WAS:'' @ [CHR 0x0A]]
                              @ map (\<lambda>name. name @ [CHR 0x0A]) (visitedRooms s2)\<rparr>, True)
                  else Inr (s2, False))))"

text \<open>One pass through the body of the \<^verbatim>\<open>while\<close> loop.\<close>

definition gameTurn ::
    "room list \<Rightarrow> (nat \<Rightarrow> string) \<Rightarrow> game \<Rightarrow> string \<Rightarrow> fault + (game \<times> bool) \<times> string" where
  "gameTurn roomArr clock s stdin =
     (case showRoom roomArr s of
        Inl e \<Rightarrow> Inl e
      | Inr s1 \<Rightarrow>
          (case promptInput stdin of
             Inl e \<Rightarrow> Inl e
           | Inr (command, rest) \<Rightarrow>
               (case playTurn roomArr clock (s1\<lparr>userInputRoom := command\<rparr>) of
                  Inl e \<Rightarrow> Inl e
                | Inr r \<Rightarrow> Inr (r, rest))))"

lemma promptInput_progress:
  "promptInput stdin = Inr (command, rest) \<Longrightarrow> length rest < length stdin"
  by (auto simp: promptInput_def fgets_def split: option.splits sum.splits if_splits
        dest!: arg_cong[where f = snd] intro!: fgetsLine_progress)

lemma gameTurn_progress:
  "gameTurn roomArr clock s stdin = Inr (r, rest) \<Longrightarrow> length rest < length stdin"
  by (auto simp: gameTurn_def split: sum.splits dest: promptInput_progress)

function gameLoop :: "room list \<Rightarrow> (nat \<Rightarrow> string) \<Rightarrow> game \<Rightarrow> string \<Rightarrow> fault + game" where
  "gameLoop roomArr clock s stdin =
     (case roomType (roomArr ! currentRoom s) of
        None \<Rightarrow> Inl NullString
      | Some ty \<Rightarrow>
          if ty = ''END_ROOM'' then Inr s
          else
            (case gameTurn roomArr clock s stdin of
               Inl e \<Rightarrow> Inl e
             | Inr ((s', won), rest) \<Rightarrow>
                 if won then Inr s' else gameLoop roomArr clock s' rest))"
  by pat_completeness auto

termination gameLoop
  by (relation "measure (\<lambda>(roomArr, clock, s, stdin). length stdin)")
     (auto dest: gameTurn_progress)

declare gameLoop.simps [simp del]

definition runGameDriver :: "room list \<Rightarrow> (nat \<Rightarrow> string) \<Rightarrow> string \<Rightarrow> fault + game" where
  "runGameDriver roomArr clock stdin =
     (case findStart roomArr [0..<7] None of
        Inl e \<Rightarrow> Inl e
      | Inr None \<Rightarrow> Inl NoStartRoom
      | Inr (Some start) \<Rightarrow>
          gameLoop roomArr clock
            \<lparr>currentRoom = start, stepCount = 0, userInputRoom = [], visitedRooms = [],
             printed = [], timeRequests = 0\<rparr> stdin)"

subsection \<open>A directory listing\<close>

text \<open>A listing with three rooms directories among other entries.\<close>

definition exampleDirectory :: "dirent list" where
  "exampleDirectory =
     [(''.'', 5000), (''trompj.rooms.77'', 2000), (''notes.txt'', 9000),
      (''trompj.rooms.99'', 3000), (''..'', 5000), (''trompj.rooms.12'', 1000)]"

subsection \<open>Sessions of the game\<close>

text \<open>A command that, with its newline, fits \<^verbatim>\<open>userInputRoom\<close>, and is one line and one
  C string.\<close>

definition fitsCommand :: "string \<Rightarrow> bool" where
  "fitsCommand n \<longleftrightarrow> length n \<le> 8 \<and> CHR 0x0A \<notin> set n \<and> CHR 0x00 \<notin> set n"

text \<open>The seven rooms as the Graph Builder provides them: every room has a name that fits
  a command and a type, and no two rooms share a name.\<close>

definition wellFormedRooms :: "room list \<Rightarrow> bool" where
  "wellFormedRooms roomArr \<longleftrightarrow>
     length roomArr = 7
     \<and> list_all (\<lambda>r. (case roomName r of None \<Rightarrow> False | Some name \<Rightarrow> fitsCommand name)
                     \<and> roomType r \<noteq> None) roomArr
     \<and> distinct (map roomName roomArr)"

text \<open>A sequence of commands that leads from a room to the end room: each is a connection
  of the room reached so far, names a room, and only the last room is typed
  \<^verbatim>\<open>END_ROOM\<close>.\<close>

fun leadsToEnd :: "room list \<Rightarrow> nat \<Rightarrow> string list \<Rightarrow> bool" where
  "leadsToEnd roomArr cur [] = (roomType (roomArr ! cur) = Some ''END_ROOM'')"
| "leadsToEnd roomArr cur (n # ns) =
     (roomType (roomArr ! cur) \<noteq> Some ''END_ROOM''
      \<and> n \<in> set (connectionNames (roomArr ! cur))
      \<and> list_ex (\<lambda>j. roomName (roomArr ! j) = Some n \<and> leadsToEnd roomArr j ns) [0..<7])"

text \<open>Commands typed one per line.\<close>

definition inputLines :: "string list \<Rightarrow> string" where
  "inputLines names = concat (map (\<lambda>n. n @ [CHR 0x0A]) names)"

text \<open>The victory message: the step count and the path, one name per line.\<close>

definition victoryLines :: "nat \<Rightarrow> string list \<Rightarrow> string list" where
  "victoryLines steps path =
     [''YOU HAVE FOUND THE END ROOM. CONGRATULATIONS!'' @ [CHR 0x0A],
      ''YOU TOOK '' @ showNat steps @ '' STEPS. YOUR PATH TO VICTORY WAS:'' @ [CHR 0x0A]]
     @ map (\<lambda>name. name @ [CHR 0x0A]) path"

text \<open>The rooms of the concrete run of \<^verbatim>\<open>setupRoomFiles\<close> above, a walk through them, a
  clock and the state in which the game starts there.\<close>

definition witnessRooms :: "room list" where
  "witnessRooms =
     [\<lparr>roomName = Some ''Dungeon'', roomType = Some ''MID_ROOM'',
        roomConnections = [Some ''Barracks'', Some ''Game'', Some ''Kitchen'', None, None, None]\<rparr>,
      \<lparr>roomName = Some ''Barracks'', roomType = Some ''START_ROOM'',
        roomConnections = [Some ''Dungeon'', Some ''Garden'', Some ''Medical'', None, None, None]\<rparr>,
      \<lparr>roomName = Some ''Garden'', roomType = Some ''MID_ROOM'',
        roomConnections = [Some ''Barracks'', Some ''Game'', Some ''Corridor'', Some ''Kitchen'', None, None]\<rparr>,
      \<lparr>roomName = Some ''Game'', roomType = Some ''END_ROOM'',
        roomConnections = [Some ''Dungeon'', Some ''Garden'', Some ''Medical'', None, None, None]\<rparr>,
      \<lparr>roomName = Some ''Medical'', roomType = Some ''MID_ROOM'',
        roomConnections = [Some ''Barracks'', Some ''Game'', Some ''Corridor'', None, None, None]\<rparr>,
      \<lparr>roomName = Some ''Corridor'', roomType = Some ''MID_ROOM'',
        roomConnections = [Some ''Garden'', Some ''Medical'', Some ''Kitchen'', None, None, None]\<rparr>,
      \<lparr>roomName = Some ''Kitchen'', roomType = Some ''MID_ROOM'',
        roomConnections = [Some ''Dungeon'', Some ''Garden'', Some ''Corridor'', None, None, None]\<rparr>]"

definition witnessWalk :: "string list" where
  "witnessWalk = [''Dungeon'', ''Kitchen'', ''Garden'', ''Game'']"

definition witnessClock :: "nat \<Rightarrow> string" where
  "witnessClock k = '' 3:14pm, Friday, October 30, 2026\<newline>''"

definition atStart :: game where
  "atStart = \<lparr>currentRoom = 1, stepCount = 0, userInputRoom = [], visitedRooms = [],
              printed = [], timeRequests = 0\<rparr>"

section \<open>Properties of the generation loop\<close>

lemma upt7: "[0..<7] = [0, 1, 2, 3, 4, 5, 6::nat]"
  by (simp add: upt_rec)

lemma foldl_count: "foldl (\<lambda>c y. if P y then c + 1 else c) n xs = n + length (filter P xs)"
  by (induction xs arbitrary: n) auto

lemma countConnections_card: "countConnections row = card {y. y < 7 \<and> row ! y \<noteq> - 1}"
proof -
  have "countConnections row = length (filter (\<lambda>y. row ! y \<noteq> - 1) [0..<7])"
    unfolding countConnections_def by (simp add: foldl_count)
  also have "\<dots> = card ({y. row ! y \<noteq> - 1} \<inter> set [0..<7])"
    by (rule distinct_length_filter) simp
  also have "{y. row ! y \<noteq> - 1} \<inter> set [0..<7] = {y. y < 7 \<and> row ! y \<noteq> - 1}"
    by auto
  finally show ?thesis .
qed

lemma foldl_flag:
  "foldl (\<lambda>graphFull idx. if Q idx then 0 else graphFull) (acc::int) xs
     = (if \<exists>idx\<in>set xs. Q idx then 0 else acc)"
  by (induction xs arbitrary: acc) auto

lemma isGraphFull_iff:
  "isGraphFull g = (if \<exists>x<7. countConnections (g ! x) < 3 then 0 else 1)"
  unfolding isGraphFull_def Let_def foldl_flag by auto

lemma graphInv_init: "graphInv initializeGraph"
  by (simp add: graphInv_def initializeGraph_def)

lemma connectRoom_nth:
  "length g = 7 \<Longrightarrow> \<forall>a<7. length (g ! a) = 7 \<Longrightarrow> A < 7 \<Longrightarrow> B < 7 \<Longrightarrow> a < 7 \<Longrightarrow> b < 7 \<Longrightarrow>
   connectRoom g A B ! a ! b = (if a = A \<and> b = B then int B else g ! a ! b)"
  by (auto simp: connectRoom_def nth_list_update)

lemma connectRoom_len:
  "length (connectRoom g A B) = length g"
  "length g = 7 \<Longrightarrow> \<forall>a<7. length (g ! a) = 7 \<Longrightarrow> A < 7 \<Longrightarrow> a < 7 \<Longrightarrow> length (connectRoom g A B ! a) = 7"
  by (auto simp: connectRoom_def nth_list_update)

lemma graphInv_connect:
  assumes "graphInv g" "A < 7" "B < 7" "A \<noteq> B"
  shows "graphInv (connectRoom (connectRoom g A B) B A)"
proof -
  let ?g1 = "connectRoom g A B"
  have l: "length g = 7" "\<forall>a<7. length (g ! a) = 7" using assms(1) by (auto simp: graphInv_def)
  have l1: "length ?g1 = 7" "\<forall>a<7. length (?g1 ! a) = 7" using l assms(2) by (auto simp: connectRoom_len)
  have cell: "\<And>a b. a < 7 \<Longrightarrow> b < 7 \<Longrightarrow> connectRoom ?g1 B A ! a ! b =
       (if a = B \<and> b = A then int A else if a = A \<and> b = B then int B else g ! a ! b)"
    using assms(2,3) by (simp add: connectRoom_nth[OF l1] connectRoom_nth[OF l])
  show ?thesis
    unfolding graphInv_def
    using assms l l1 by (auto simp: cell connectRoom_len graphInv_def)
qed

lemma countConnections_le6:
  assumes "graphInv g" "a < 7"
  shows "countConnections (g ! a) \<le> 6"
proof -
  have "{y. y < 7 \<and> g ! a ! y \<noteq> - 1} \<subseteq> {..<7} - {a}"
    using assms by (auto simp: graphInv_def)
  then have "card {y. y < 7 \<and> g ! a ! y \<noteq> - 1} \<le> card ({..<7::nat} - {a})"
    by (intro card_mono) auto
  also have "\<dots> = 6" using assms(2) by simp
  finally show ?thesis by (simp add: countConnections_card)
qed

lemma connectionAlreadyExists_iff:
  assumes "graphInv g" "A < 7" "B < 7"
  shows "connectionAlreadyExists g A B = (if g ! A ! B \<noteq> - 1 then 1 else 0)"
proof -
  have c: "\<And>a b. a < 7 \<Longrightarrow> b < 7 \<Longrightarrow> g ! a ! b = - 1 \<or> g ! a ! b = int b"
    and s: "\<And>a b. a < 7 \<Longrightarrow> b < 7 \<Longrightarrow> (g ! a ! b = - 1) = (g ! b ! a = - 1)"
    using assms(1) by (auto simp: graphInv_def)
  have "(\<exists>idxA<7. \<exists>idxB<7. g ! A ! idxA = int B \<and> g ! A ! idxA \<noteq> - 1
            \<and> g ! B ! idxB \<noteq> - 1 \<and> g ! B ! idxB = int A) \<longleftrightarrow> g ! A ! B \<noteq> - 1"
    (is "?L \<longleftrightarrow> ?R")
  proof
    assume ?L
    then obtain idxA where i: "idxA < 7" "g ! A ! idxA = int B" "g ! A ! idxA \<noteq> - 1" by blast
    with c[OF assms(2) i(1)] have "idxA = B" by auto
    with i show ?R by simp
  next
    assume r: ?R
    then have "g ! A ! B = int B" using c[OF assms(2,3)] by auto
    moreover have "g ! B ! A \<noteq> - 1" using r s[OF assms(2,3)] by simp
    moreover then have "g ! B ! A = int A" using c[OF assms(3,2)] by auto
    ultimately show ?L using assms(2,3) r by blast
  qed
  note eq = this
  have ex: "list_ex (\<lambda>idxA. list_ex (\<lambda>idxB.
            g ! A ! idxA = int B \<and> g ! A ! idxA \<noteq> - 1
            \<and> g ! B ! idxB \<noteq> - 1 \<and> g ! B ! idxB = int A) [0..<7]) [0..<7] \<longleftrightarrow> ?L"
    unfolding list_ex_iff by (simp only: set_upt atLeastLessThan_iff Bex_def) auto
  show ?thesis
    unfolding connectionAlreadyExists_def ex eq by simp
qed

lemma partner_exists:
  assumes "graphInv g" "A < 7" "canAddConnectionFrom g A = 1"
  shows "\<exists>B<7. canAddConnectionFrom g B \<noteq> 0 \<and> isSameRoom A B \<noteq> 1
           \<and> connectionAlreadyExists g A B \<noteq> 1"
proof -
  have lt: "card {y. y < 7 \<and> g ! A ! y \<noteq> - 1} < 6"
    using assms(3) by (simp add: canAddConnectionFrom_def countConnections_card split: if_splits)
  have "\<exists>B<7. B \<noteq> A \<and> g ! A ! B = - 1"
  proof (rule ccontr)
    assume "\<not> ?thesis"
    then have "{..<7} - {A} \<subseteq> {y. y < 7 \<and> g ! A ! y \<noteq> - 1}" by auto
    then have "card ({..<7::nat} - {A}) \<le> card {y. y < 7 \<and> g ! A ! y \<noteq> - 1}"
      by (intro card_mono) auto
    with assms(2) lt show False by simp
  qed
  then obtain B where B: "B < 7" "B \<noteq> A" "g ! A ! B = - 1" by blast
  have "g ! B ! A = - 1" "g ! B ! B = - 1"
    using assms(1,2) B by (auto simp: graphInv_def)
  then have "{y. y < 7 \<and> g ! B ! y \<noteq> - 1} \<subseteq> {..<7} - {A, B}" by auto
  then have "card {y. y < 7 \<and> g ! B ! y \<noteq> - 1} \<le> card ({..<7::nat} - {A, B})"
    by (intro card_mono) auto
  also have "\<dots> = 5" using assms(2) B by (simp add: card_Diff_insert)
  finally have "canAddConnectionFrom g B \<noteq> 0"
    by (simp add: canAddConnectionFrom_def countConnections_card)
  moreover have "isSameRoom A B \<noteq> 1" using B by (simp add: isSameRoom_def)
  moreover have "connectionAlreadyExists g A B \<noteq> 1"
    using B by (simp add: connectionAlreadyExists_iff[OF assms(1,2) B(1)])
  ultimately show ?thesis using B(1) by blast
qed

lemma candidate_exists:
  assumes "isGraphFull g = 0"
  shows "\<exists>A<7. canAddConnectionFrom g A = 1"
  using assms by (auto simp: isGraphFull_iff canAddConnectionFrom_def split: if_splits)

lemma drawRoomA_sound:
  assumes "drawRoomA g rs = Some r"
  shows "fst r < 7 \<and> canAddConnectionFrom g (fst r) = 1 \<and> (\<exists>n. snd r = sdrop n rs)"
proof (rule drawRoomA.raw_induct[where P = "\<lambda>g rs r. fst r < 7
     \<and> canAddConnectionFrom g (fst r) = 1 \<and> (\<exists>n. snd r = sdrop n rs)", OF _ assms], goal_cases)
  case (1 f g rs r)
  show ?case
  proof (cases "canAddConnectionFrom g (shd rs mod 7) = 1")
    case True
    with 1(2) have "r = (shd rs mod 7, stl rs)" by (simp add: Let_def)
    moreover have "stl rs = sdrop 1 rs" by simp
    ultimately show ?thesis using True by (metis fst_conv snd_conv mod_less_divisor zero_less_numeral)
  next
    case False
    with 1(2) have "f g (stl rs) = Some r" by (simp add: Let_def)
    from 1(1)[OF this] obtain n where "fst r < 7" "canAddConnectionFrom g (fst r) = 1"
      "snd r = sdrop n (stl rs)" by blast
    moreover have "sdrop n (stl rs) = sdrop (Suc n) rs" by simp
    ultimately show ?thesis by metis
  qed
qed

lemma drawRoomB_sound:
  assumes "drawRoomB g A rs = Some r"
  shows "fst r < 7 \<and> canAddConnectionFrom g (fst r) \<noteq> 0 \<and> isSameRoom A (fst r) \<noteq> 1
     \<and> connectionAlreadyExists g A (fst r) \<noteq> 1 \<and> (\<exists>n. snd r = sdrop n rs)"
proof (rule drawRoomB.raw_induct[where P = "\<lambda>g A rs r. fst r < 7
     \<and> canAddConnectionFrom g (fst r) \<noteq> 0 \<and> isSameRoom A (fst r) \<noteq> 1
     \<and> connectionAlreadyExists g A (fst r) \<noteq> 1 \<and> (\<exists>n. snd r = sdrop n rs)", OF _ assms], goal_cases)
  case (1 f g A rs r)
  let ?b = "shd rs mod 7"
  show ?case
  proof (cases "canAddConnectionFrom g ?b = 0 \<or> isSameRoom A ?b = 1
                  \<or> connectionAlreadyExists g A ?b = 1")
    case False
    with 1(2) have r: "r = (?b, stl rs)" by (simp add: Let_def)
    have "snd r = sdrop 1 rs" by (simp add: r)
    then have "\<exists>n. snd r = sdrop n rs" by blast
    moreover have "fst r < 7" by (simp add: r)
    ultimately show ?thesis using False by (simp add: r)
  next
    case True
    with 1(2) have "f g A (stl rs) = Some r" by (auto simp add: Let_def)
    from 1(1)[OF this] obtain n where "fst r < 7" "canAddConnectionFrom g (fst r) \<noteq> 0"
      "isSameRoom A (fst r) \<noteq> 1" "connectionAlreadyExists g A (fst r) \<noteq> 1"
      "snd r = sdrop n (stl rs)" by blast
    moreover have "sdrop n (stl rs) = sdrop (Suc n) rs" by simp
    ultimately show ?thesis by metis
  qed
qed

lemma drawRoomA_total:
  "canAddConnectionFrom g (rs !! k mod 7) = 1 \<Longrightarrow> \<exists>r. drawRoomA g rs = Some r"
proof (induction k arbitrary: rs)
  case 0
  then show ?case by (subst drawRoomA.simps) (simp add: Let_def)
next
  case (Suc k)
  then have "\<exists>r. drawRoomA g (stl rs) = Some r" by simp
  then show ?case by (subst drawRoomA.simps) (simp add: Let_def)
qed

lemma drawRoomB_total:
  "\<not> (canAddConnectionFrom g (rs !! k mod 7) = 0 \<or> isSameRoom A (rs !! k mod 7) = 1
       \<or> connectionAlreadyExists g A (rs !! k mod 7) = 1)
   \<Longrightarrow> \<exists>r. drawRoomB g A rs = Some r"
proof (induction k arbitrary: rs)
  case 0
  then show ?case by (subst drawRoomB.simps) (simp add: Let_def)
next
  case (Suc k)
  then have "\<exists>r. drawRoomB g A (stl rs) = Some r" by simp
  then show ?case by (subst drawRoomB.simps) (simp add: Let_def)
qed

lemma fairDraws_sdrop: "fairDraws rs \<Longrightarrow> fairDraws (sdrop n rs)"
  unfolding fairDraws_def by (simp add: sdrop_snth)

lemma fairDraws_ex: "fairDraws rs \<Longrightarrow> k < 7 \<Longrightarrow> \<exists>m. rs !! m mod 7 = k"
  unfolding fairDraws_def by (metis sdrop.simps(1))

lemma connect_both_cell:
  assumes "graphInv g" "A < 7" "B < 7" "a < 7" "b < 7"
  shows "connectRoom (connectRoom g A B) B A ! a ! b =
       (if a = B \<and> b = A then int A else if a = A \<and> b = B then int B else g ! a ! b)"
proof -
  let ?g1 = "connectRoom g A B"
  have l: "length g = 7" "\<forall>a<7. length (g ! a) = 7" using assms(1) by (auto simp: graphInv_def)
  have l1: "length ?g1 = 7" "\<forall>a<7. length (?g1 ! a) = 7"
    using l assms(2) by (auto simp: connectRoom_len)
  show ?thesis
    using assms(2-) by (simp add: connectRoom_nth[OF l1] connectRoom_nth[OF l])
qed

lemma degree_step:
  assumes "graphInv g" "A < 7" "B < 7" "A \<noteq> B" "g ! A ! B = - 1" "a < 7"
  shows "countConnections (connectRoom (connectRoom g A B) B A ! a)
           = countConnections (g ! a) + (if a = A \<or> a = B then 1 else 0)"
proof -
  let ?g' = "connectRoom (connectRoom g A B) B A"
  let ?S = "\<lambda>g. {y. y < 7 \<and> g ! a ! y \<noteq> - 1}"
  have ba: "g ! B ! A = - 1" using assms by (auto simp: graphInv_def)
  have fin: "finite (?S g)" by simp
  consider "a = A" | "a = B" | "a \<noteq> A" "a \<noteq> B" by blast
  then show ?thesis
  proof cases
    case 1
    have "?S ?g' = insert B (?S g)"
      using assms 1 by (auto simp: connect_both_cell[OF assms(1-3)] split: if_splits)
    moreover have "B \<notin> ?S g" using assms 1 by simp
    ultimately show ?thesis using 1 fin by (simp add: countConnections_card)
  next
    case 2
    have "?S ?g' = insert A (?S g)"
      using assms 2 by (auto simp: connect_both_cell[OF assms(1-3)] split: if_splits)
    moreover have "A \<notin> ?S g" using ba 2 by simp
    ultimately show ?thesis using 2 fin by (simp add: countConnections_card)
  next
    case 3
    have "?S ?g' = ?S g"
      using assms 3 by (auto simp: connect_both_cell[OF assms(1-3)] split: if_splits)
    then show ?thesis using 3 by (simp add: countConnections_card)
  qed
qed

lemma totalConnections_le: "graphInv g \<Longrightarrow> totalConnections g \<le> 42"
proof -
  assume "graphInv g"
  then have "(\<Sum>a<7. countConnections (g ! a)) \<le> (\<Sum>a<(7::nat). 6)"
    by (intro sum_mono) (simp add: countConnections_le6)
  then show ?thesis by (simp add: totalConnections_def)
qed

lemma totalConnections_step:
  assumes "graphInv g" "A < 7" "B < 7" "A \<noteq> B" "g ! A ! B = - 1"
  shows "totalConnections (connectRoom (connectRoom g A B) B A) = totalConnections g + 2"
proof -
  have "totalConnections (connectRoom (connectRoom g A B) B A)
          = (\<Sum>a<7. countConnections (g ! a) + (if a = A \<or> a = B then 1 else 0))"
    unfolding totalConnections_def by (intro sum.cong) (simp_all add: degree_step[OF assms])
  also have "\<dots> = totalConnections g + (\<Sum>a<7. if a = A \<or> a = B then 1 else 0)"
    by (simp add: totalConnections_def sum.distrib)
  also have "(\<Sum>a<7. if a = A \<or> a = B then 1 else 0) = card ({..<7} \<inter> {A, B})"
    by (subst sum.If_cases) (auto intro: arg_cong[where f = card])
  also have "{..<7} \<inter> {A, B} = {A, B}" using assms by auto
  finally show ?thesis using assms(4) by simp
qed

lemma addRandomConnection_sound:
  assumes "addRandomConnection g rs = Some (g', rs')" "graphInv g"
  shows "\<exists>A B. A < 7 \<and> B < 7 \<and> A \<noteq> B \<and> g ! A ! B = - 1
           \<and> canAddConnectionFrom g A = 1 \<and> canAddConnectionFrom g B = 1
           \<and> g' = connectRoom (connectRoom g A B) B A \<and> (\<exists>n. rs' = sdrop n rs)"
proof -
  from assms(1) obtain A rs1 B where a: "drawRoomA g rs = Some (A, rs1)"
    and b: "drawRoomB g A rs1 = Some (B, rs')"
    and g': "g' = connectRoom (connectRoom g A B) B A"
    by (auto simp: addRandomConnection_def split: option.splits)
  from drawRoomA_sound[OF a] obtain n where A: "A < 7" "canAddConnectionFrom g A = 1"
    "rs1 = sdrop n rs" by auto
  from drawRoomB_sound[OF b] obtain m where B: "B < 7" "canAddConnectionFrom g B \<noteq> 0"
    "isSameRoom A B \<noteq> 1" "connectionAlreadyExists g A B \<noteq> 1" "rs' = sdrop m rs1" by auto
  have "A \<noteq> B" using B(3) by (simp add: isSameRoom_def split: if_splits)
  moreover have "g ! A ! B = - 1"
    using B(4) by (simp add: connectionAlreadyExists_iff[OF assms(2) A(1) B(1)] split: if_splits)
  moreover have "canAddConnectionFrom g B = 1"
    using B(2) by (simp add: canAddConnectionFrom_def split: if_splits)
  moreover have "rs' = sdrop (n + m) rs" using A(3) B(5) by simp
  ultimately show ?thesis using A(1,2) B(1) g' by blast
qed

lemma addRandomConnection_total:
  assumes "graphInv g" "fairDraws rs" "isGraphFull g = 0"
  shows "\<exists>r. addRandomConnection g rs = Some r"
proof -
  from candidate_exists[OF assms(3)] obtain A0 where "A0 < 7" "canAddConnectionFrom g A0 = 1"
    by blast
  moreover from fairDraws_ex[OF assms(2) \<open>A0 < 7\<close>] obtain k where "rs !! k mod 7 = A0" by blast
  ultimately obtain r where a: "drawRoomA g rs = Some r"
    using drawRoomA_total[of g rs k] by auto
  obtain A rs1 where r: "r = (A, rs1)" by (cases r)
  from drawRoomA_sound[OF a] r obtain n where A: "A < 7" "canAddConnectionFrom g A = 1"
    "rs1 = sdrop n rs" by auto
  from partner_exists[OF assms(1) A(1,2)] obtain B0 where B0: "B0 < 7"
    "canAddConnectionFrom g B0 \<noteq> 0" "isSameRoom A B0 \<noteq> 1"
    "connectionAlreadyExists g A B0 \<noteq> 1" by blast
  have "fairDraws rs1" using assms(2) A(3) by (simp add: fairDraws_sdrop)
  from fairDraws_ex[OF this B0(1)] obtain m where "rs1 !! m mod 7 = B0" by blast
  with B0 obtain r2 where "drawRoomB g A rs1 = Some r2"
    using drawRoomB_total[of g rs1 m A] by auto
  then show ?thesis
    using a r by (cases r2) (simp add: addRandomConnection_def)
qed

lemma generateLoop_sound:
  assumes "generateLoop g rs = Some r" "graphInv g"
  shows "graphInv (fst r) \<and> isGraphFull (fst r) = 1"
proof -
  have "graphInv g \<longrightarrow> graphInv (fst r) \<and> isGraphFull (fst r) = 1"
  proof (rule generateLoop.raw_induct[where P = "\<lambda>g rs r. graphInv g \<longrightarrow>
      graphInv (fst r) \<and> isGraphFull (fst r) = 1", OF _ assms(1)], goal_cases)
    case (1 f g rs r)
    show ?case
    proof
      assume inv: "graphInv g"
      show "graphInv (fst r) \<and> isGraphFull (fst r) = 1"
      proof (cases "isGraphFull g = 0")
        case False
        with 1(2) have "r = (g, rs)" by simp
        moreover have "isGraphFull g = 1" using False by (simp add: isGraphFull_iff split: if_splits)
        ultimately show ?thesis using inv by simp
      next
        case True
        with 1(2) obtain g1 rs1 where step: "addRandomConnection g rs = Some (g1, rs1)"
          and rest: "f g1 rs1 = Some r"
          by (auto split: option.splits)
        from addRandomConnection_sound[OF step inv] have "graphInv g1"
          using graphInv_connect[OF inv] by blast
        with 1(1)[OF rest] show ?thesis by simp
      qed
    qed
  qed
  with assms(2) show ?thesis by simp
qed

lemma generateLoop_total:
  assumes "graphInv g" "fairDraws rs"
  shows "\<exists>r. generateLoop g rs = Some r"
  using assms
proof (induction "42 - totalConnections g" arbitrary: g rs rule: less_induct)
  case less
  show ?case
  proof (cases "isGraphFull g = 0")
    case False
    then show ?thesis by (subst generateLoop.simps) simp
  next
    case True
    from addRandomConnection_total[OF less(2,3) True] obtain g1 rs1
      where step: "addRandomConnection g rs = Some (g1, rs1)" by auto
    from addRandomConnection_sound[OF step less(2)] obtain A B n where
      AB: "A < 7" "B < 7" "A \<noteq> B" "g ! A ! B = - 1"
      and g1: "g1 = connectRoom (connectRoom g A B) B A" and rs1: "rs1 = sdrop n rs" by blast
    have inv1: "graphInv g1" unfolding g1 by (rule graphInv_connect[OF less(2) AB(1-3)])
    have "totalConnections g1 = totalConnections g + 2"
      unfolding g1 by (rule totalConnections_step[OF less(2) AB])
    moreover have "totalConnections g1 \<le> 42" by (rule totalConnections_le[OF inv1])
    ultimately have "42 - totalConnections g1 < 42 - totalConnections g" by simp
    from less(1)[OF this inv1] have "\<exists>r. generateLoop g1 rs1 = Some r"
      using less(3) rs1 by (simp add: fairDraws_sdrop)
    then show ?thesis using True step by (subst generateLoop.simps) simp
  qed
qed

lemma list_update_Cons_numeral: "(x # xs)[numeral k := y] = x # xs[pred_numeral k := y]"
  by (simp add: numeral_eq_Suc)

lemma replicate_numeral_Cons: "replicate (numeral k) x = x # replicate (pred_numeral k) x"
  by (simp add: numeral_eq_Suc)

lemma generateGraph_witnessDraws: "generateGraph (witnessDraws @- sconst 0) = Some (witnessGraph, sconst 0)"
  unfolding generateGraph_def witnessDraws_def witnessGraph_def initializeGraph_def
  by (simp add: generateLoop.simps drawRoomA.simps drawRoomB.simps addRandomConnection_def
      isGraphFull_def countConnections_def canAddConnectionFrom_def isSameRoom_def
      connectionAlreadyExists_def connectRoom_def upt7 Let_def
      list_update_Cons_numeral replicate_numeral_Cons)

lemma reachable_graphInv: "reachable g \<Longrightarrow> graphInv g"
proof (induction rule: reachable.induct)
  case reachable_init
  show ?case by (rule graphInv_init)
next
  case (reachable_step g A B)
  then have "A \<noteq> B" by (auto simp: isSameRoom_def)
  with reachable_step show ?case by (intro graphInv_connect)
qed

lemma roomNeighbours_inv:
  assumes "graphInv g" "a < 7"
  shows "roomNeighbours g a = map int (filter (\<lambda>c. g ! a ! c \<noteq> - 1) [0..<7])"
  unfolding roomNeighbours_def using assms by (auto simp: graphInv_def)

lemma roomNeighbours_set:
  assumes "graphInv g" "a < 7"
  shows "set (roomNeighbours g a) = int ` {c. c < 7 \<and> g ! a ! c \<noteq> - 1}"
  unfolding roomNeighbours_inv[OF assms] by auto

lemma roomNeighbours_mem:
  assumes "graphInv g" "a < 7" "b < 7"
  shows "int b \<in> set (roomNeighbours g a) \<longleftrightarrow> g ! a ! b \<noteq> - 1"
  unfolding roomNeighbours_set[OF assms(1,2)] using assms(3) by auto

text \<open>
  Claim C1. When the generation loop returns (\<^verbatim>\<open>isGraphFull\<close> first answers 1), every one of
  the seven rows has between 3 and 6 set cells, and as many recorded neighbours; no room
  records itself; no room records a neighbour twice; and room \<open>a\<close> records \<open>b\<close> exactly when
  \<open>b\<close> records \<open>a\<close>.
\<close>

theorem generated_graph_wellformed:
  assumes "generateGraph rs = Some (g, rs')"
  shows "(\<forall>a<7. 3 \<le> countConnections (g ! a) \<and> countConnections (g ! a) \<le> 6
              \<and> length (roomNeighbours g a) = countConnections (g ! a))
       \<and> (\<forall>a<7. int a \<notin> set (roomNeighbours g a))
       \<and> (\<forall>a<7. distinct (roomNeighbours g a))
       \<and> (\<forall>a<7. \<forall>b<7. int b \<in> set (roomNeighbours g a) \<longleftrightarrow> int a \<in> set (roomNeighbours g b))"
proof -
  from assms have "generateLoop initializeGraph rs = Some (g, rs')"
    by (simp add: generateGraph_def)
  from generateLoop_sound[OF this graphInv_init]
  have inv: "graphInv g" and full: "isGraphFull g = 1" by simp_all
  have deg: "\<forall>a<7. 3 \<le> countConnections (g ! a) \<and> countConnections (g ! a) \<le> 6
              \<and> length (roomNeighbours g a) = countConnections (g ! a)"
  proof (intro allI impI conjI)
    fix a :: nat assume a: "a < 7"
    show "3 \<le> countConnections (g ! a)"
    proof (rule ccontr)
      assume "\<not> 3 \<le> countConnections (g ! a)"
      with a have "\<exists>x<7. countConnections (g ! x) < 3" by (auto simp: not_le)
      then have "isGraphFull g = 0" by (simp only: isGraphFull_iff if_True)
      with full show False by simp
    qed
    show "countConnections (g ! a) \<le> 6" by (rule countConnections_le6[OF inv a])
    show "length (roomNeighbours g a) = countConnections (g ! a)"
      by (simp add: roomNeighbours_def countConnections_def foldl_count)
  qed
  have self: "\<forall>a<7. int a \<notin> set (roomNeighbours g a)"
    using inv by (simp add: roomNeighbours_mem) (simp add: graphInv_def)
  have dist: "\<forall>a<7. distinct (roomNeighbours g a)"
    using inv by (simp add: roomNeighbours_inv distinct_map inj_on_def)
  have sym: "\<forall>a<7. \<forall>b<7. int b \<in> set (roomNeighbours g a) \<longleftrightarrow> int a \<in> set (roomNeighbours g b)"
    using inv by (simp add: roomNeighbours_mem) (simp add: graphInv_def)
  from deg self dist sym show ?thesis by blast
qed

theorem generated_graph_wellformed_witness:
  "generateGraph (witnessDraws @- sconst 0) = Some (witnessGraph, sconst 0)
   \<and> 3 \<le> countConnections (witnessGraph ! 2) \<and> countConnections (witnessGraph ! 2) \<le> 6
   \<and> length (roomNeighbours witnessGraph 2) = countConnections (witnessGraph ! 2)
   \<and> int 2 \<notin> set (roomNeighbours witnessGraph 2)
   \<and> distinct (roomNeighbours witnessGraph 2)
   \<and> (int 6 \<in> set (roomNeighbours witnessGraph 2)) = (int 2 \<in> set (roomNeighbours witnessGraph 6))"
proof -
  note t = generated_graph_wellformed[OF generateGraph_witnessDraws]
  have "(2::nat) < 7" "(6::nat) < 7" by simp_all
  with t show ?thesis using generateGraph_witnessDraws by blast
qed

lemma drawRoomB_same_forever: "drawRoomB g 0 (sconst 0) = None"
proof (rule ccontr)
  assume "drawRoomB g 0 (sconst 0) \<noteq> None"
  then obtain r where r: "drawRoomB g 0 (sconst 0) = Some r" by auto
  have "\<not> (0 = (0::nat) \<and> sconst 0 = sconst (0::nat))"
  proof (rule drawRoomB.raw_induct[where P = "\<lambda>g A rs r. \<not> (A = 0 \<and> rs = sconst 0)", OF _ r],
      goal_cases)
    case (1 f g A rs r)
    show ?case
    proof
      assume a: "A = 0 \<and> rs = sconst 0"
      then have "stl rs = sconst 0" by simp
      with 1(2) a have "f g 0 (sconst 0) = Some r" by (simp add: isSameRoom_def)
      from 1(1)[OF this] show False by simp
    qed
  qed
  then show False by simp
qed

text \<open>
  Claim C2 as stated: the loop terminates for every execution. It does not when
  \<^verbatim>\<open>rand()\<close> keeps returning 0: \<^verbatim>\<open>roomA\<close> is 0 and every draw of \<^verbatim>\<open>roomB\<close> is the same
  room, so the \<^verbatim>\<open>do ... while\<close> loop never leaves.
\<close>

theorem generation_loops_on_constant_draws: "generateGraph (sconst 0) = None"
proof -
  have "drawRoomA initializeGraph (sconst 0) = Some (0, sconst 0)"
    by (subst drawRoomA.simps)
       (simp add: canAddConnectionFrom_def countConnections_def initializeGraph_def upt7
          replicate_numeral_Cons)
  then have "addRandomConnection initializeGraph (sconst 0) = None"
    by (simp add: addRandomConnection_def drawRoomB_same_forever)
  moreover have "isGraphFull initializeGraph = 0"
    by (simp add: isGraphFull_def countConnections_def initializeGraph_def upt7
          replicate_numeral_Cons)
  ultimately show ?thesis
    unfolding generateGraph_def by (subst generateLoop.simps) simp
qed

lemma fairDraws_cycle: "fairDraws (cycle [0, 1, 2, 3, 4, 5, 6])"
  unfolding fairDraws_def
proof (intro allI impI)
  fix n k :: nat assume k: "k < 7"
  let ?u = "[0, 1, 2, 3, 4, 5, 6::nat]"
  have "k \<in> set ?u" using k by auto
  also have "set ?u = sset (sdrop n (cycle ?u))"
    by (simp add: sdrop_cycle)
  finally obtain m where "sdrop n (cycle ?u) !! m = k" by (auto simp: sset_range)
  with k have "sdrop n (cycle ?u) !! m mod 7 = k" by simp
  then show "\<exists>m. sdrop n (cycle ?u) !! m mod 7 = k" ..
qed

text \<open>
  Claim C2, amended. The loop terminates for every execution whose draws keep producing
  each of the seven room numbers. Each accepted edge raises the degree of two distinct
  rooms by one, neither beyond 6. In every reachable matrix that is not yet full some
  room can still be drawn as \<^verbatim>\<open>roomA\<close>, and every room that can be drawn as \<^verbatim>\<open>roomA\<close>
  has a partner that the \<^verbatim>\<open>roomB\<close> loop accepts: a matrix that is not full and offers no
  acceptable edge is unreachable.
\<close>

theorem generation_terminates_fair:
  "(fairDraws rs \<longrightarrow> (\<exists>g' rs'. generateGraph rs = Some (g', rs')))
   \<and> (reachable g \<and> addRandomConnection g ds = Some (g1, ds1) \<longrightarrow>
        (\<exists>A B. A < 7 \<and> B < 7 \<and> A \<noteq> B
           \<and> countConnections (g1 ! A) = countConnections (g ! A) + 1
           \<and> countConnections (g1 ! B) = countConnections (g ! B) + 1
           \<and> countConnections (g1 ! A) \<le> 6 \<and> countConnections (g1 ! B) \<le> 6))
   \<and> (reachable g \<and> isGraphFull g = 0 \<longrightarrow>
        (\<exists>A<7. canAddConnectionFrom g A = 1)
        \<and> (\<forall>A<7. canAddConnectionFrom g A = 1 \<longrightarrow>
              (\<exists>B<7. \<not> (canAddConnectionFrom g B = 0 \<or> isSameRoom A B = 1
                         \<or> connectionAlreadyExists g A B = 1))))"
proof (intro conjI impI)
  assume "fairDraws rs"
  from generateLoop_total[OF graphInv_init this]
  show "\<exists>g' rs'. generateGraph rs = Some (g', rs')" by (simp add: generateGraph_def)
next
  assume a: "reachable g \<and> addRandomConnection g ds = Some (g1, ds1)"
  then have inv: "graphInv g" by (simp add: reachable_graphInv)
  from addRandomConnection_sound[OF _ inv] a obtain A B where
    AB: "A < 7" "B < 7" "A \<noteq> B" "g ! A ! B = - 1"
    and g1: "g1 = connectRoom (connectRoom g A B) B A" by blast
  have inv1: "graphInv g1" unfolding g1 by (rule graphInv_connect[OF inv AB(1-3)])
  have "countConnections (g1 ! A) = countConnections (g ! A) + 1"
    "countConnections (g1 ! B) = countConnections (g ! B) + 1"
    unfolding g1 using degree_step[OF inv AB, of A] degree_step[OF inv AB, of B] AB by simp_all
  moreover have "countConnections (g1 ! A) \<le> 6" "countConnections (g1 ! B) \<le> 6"
    using countConnections_le6[OF inv1] AB by simp_all
  ultimately show "\<exists>A B. A < 7 \<and> B < 7 \<and> A \<noteq> B
           \<and> countConnections (g1 ! A) = countConnections (g ! A) + 1
           \<and> countConnections (g1 ! B) = countConnections (g ! B) + 1
           \<and> countConnections (g1 ! A) \<le> 6 \<and> countConnections (g1 ! B) \<le> 6"
    using AB by blast
next
  assume a: "reachable g \<and> isGraphFull g = 0"
  then show "\<exists>A<7. canAddConnectionFrom g A = 1" by (simp add: candidate_exists)
next
  assume a: "reachable g \<and> isGraphFull g = 0"
  then have inv: "graphInv g" by (simp add: reachable_graphInv)
  show "\<forall>A<7. canAddConnectionFrom g A = 1 \<longrightarrow>
              (\<exists>B<7. \<not> (canAddConnectionFrom g B = 0 \<or> isSameRoom A B = 1
                         \<or> connectionAlreadyExists g A B = 1))"
    using partner_exists[OF inv] by blast
qed

lemma addRandomConnection_first:
  "addRandomConnection initializeGraph ([0, 1] @- sconst 0) = Some (firstEdgeGraph, sconst 0)"
  unfolding initializeGraph_def firstEdgeGraph_def
  by (simp add: drawRoomA.simps drawRoomB.simps addRandomConnection_def
      countConnections_def canAddConnectionFrom_def isSameRoom_def
      connectionAlreadyExists_def connectRoom_def upt7 Let_def
      list_update_Cons_numeral replicate_numeral_Cons)

lemma initializeGraph_not_full:
  "isGraphFull initializeGraph = 0 \<and> canAddConnectionFrom initializeGraph 0 = 1"
  by (simp add: isGraphFull_def canAddConnectionFrom_def countConnections_def
      initializeGraph_def upt7 replicate_numeral_Cons)

theorem generation_terminates_fair_witness:
  "fairDraws (cycle [0, 1, 2, 3, 4, 5, 6]) \<and> reachable initializeGraph
   \<and> isGraphFull initializeGraph = 0 \<and> canAddConnectionFrom initializeGraph 0 = 1
   \<and> addRandomConnection initializeGraph ([0, 1] @- sconst 0) = Some (firstEdgeGraph, sconst 0)
   \<and> (\<exists>g' rs'. generateGraph (cycle [0, 1, 2, 3, 4, 5, 6]) = Some (g', rs'))
   \<and> (\<exists>A B. A < 7 \<and> B < 7 \<and> A \<noteq> B
         \<and> countConnections (firstEdgeGraph ! A) = countConnections (initializeGraph ! A) + 1
         \<and> countConnections (firstEdgeGraph ! B) = countConnections (initializeGraph ! B) + 1
         \<and> countConnections (firstEdgeGraph ! A) \<le> 6
         \<and> countConnections (firstEdgeGraph ! B) \<le> 6)
   \<and> (\<exists>B<7. \<not> (canAddConnectionFrom initializeGraph B = 0 \<or> isSameRoom 0 B = 1
                 \<or> connectionAlreadyExists initializeGraph 0 B = 1))"
proof -
  note t = generation_terminates_fair[of "cycle [0, 1, 2, 3, 4, 5, 6]" initializeGraph
      "[0, 1] @- sconst 0" firstEdgeGraph "sconst 0"]
  from t fairDraws_cycle
  have 1: "\<exists>g' rs'. generateGraph (cycle [0, 1, 2, 3, 4, 5, 6]) = Some (g', rs')" by blast
  from t reachable_init addRandomConnection_first
  have 2: "\<exists>A B. A < 7 \<and> B < 7 \<and> A \<noteq> B
         \<and> countConnections (firstEdgeGraph ! A) = countConnections (initializeGraph ! A) + 1
         \<and> countConnections (firstEdgeGraph ! B) = countConnections (initializeGraph ! B) + 1
         \<and> countConnections (firstEdgeGraph ! A) \<le> 6
         \<and> countConnections (firstEdgeGraph ! B) \<le> 6" by blast
  from t reachable_init initializeGraph_not_full
  have 3: "\<exists>B<7. \<not> (canAddConnectionFrom initializeGraph B = 0 \<or> isSameRoom 0 B = 1
                 \<or> connectionAlreadyExists initializeGraph 0 B = 1)" by (metis zero_less_numeral)
  show ?thesis
    using 1 2 3 fairDraws_cycle reachable_init addRandomConnection_first
      initializeGraph_not_full by blast
qed

section \<open>Role assignment in \<^verbatim>\<open>setupRoomFiles\<close>\<close>

lemma list_ex_upt7: "list_ex P [0..<7] \<longleftrightarrow> (\<exists>x<7. P x)"
  unfolding list_ex_iff by (simp only: set_upt atLeastLessThan_iff Bex_def) auto

lemma drawRoomType_sound:
  assumes "drawRoomType roomTypes fileNum rs = Some r"
  shows "\<exists>sel. 0 \<le> sel \<and> sel < 7 \<and> fst r = roomTypes[fileNum := sel]
           \<and> (\<forall>x<7. x \<noteq> fileNum \<longrightarrow> roomTypes ! x \<noteq> sel) \<and> (\<exists>n. snd r = sdrop n rs)"
proof (rule drawRoomType.raw_induct[where P = "\<lambda>roomTypes fileNum rs r.
    \<exists>sel. 0 \<le> sel \<and> sel < 7 \<and> fst r = roomTypes[fileNum := sel]
           \<and> (\<forall>x<7. x \<noteq> fileNum \<longrightarrow> roomTypes ! x \<noteq> sel) \<and> (\<exists>n. snd r = sdrop n rs)",
    OF _ assms], goal_cases)
  case (1 f roomTypes fileNum rs r)
  let ?sel = "int (shd rs mod 7)"
  have range: "0 \<le> ?sel" "?sel < 7" by simp_all
  show ?case
  proof (cases "\<exists>x<7. roomTypes ! x = ?sel")
    case False
    with 1(2) have r: "r = (roomTypes[fileNum := ?sel], stl rs)"
      by (simp add: Let_def list_ex_upt7)
    have "snd r = sdrop 1 rs" by (simp add: r)
    then have "\<exists>n. snd r = sdrop n rs" ..
    with False range show ?thesis unfolding r fst_conv by blast
  next
    case True
    with 1(2) have "f (roomTypes[fileNum := ?sel]) fileNum (stl rs) = Some r"
      by (simp add: Let_def list_ex_upt7)
    from 1(1)[OF this] obtain sel n where s: "0 \<le> sel" "sel < 7"
      "fst r = roomTypes[fileNum := ?sel, fileNum := sel]"
      "\<forall>x<7. x \<noteq> fileNum \<longrightarrow> roomTypes[fileNum := ?sel] ! x \<noteq> sel"
      "snd r = sdrop n (stl rs)" by blast
    have "fst r = roomTypes[fileNum := sel]" using s(3) by simp
    moreover have "\<forall>x<7. x \<noteq> fileNum \<longrightarrow> roomTypes ! x \<noteq> sel" using s(4) by simp
    moreover have "snd r = sdrop (Suc n) rs" using s(5) by simp
    ultimately show ?thesis using s(1,2) by blast
  qed
qed

lemma typesInv_step:
  assumes "typesInv k roomTypes" "k < 7" "0 \<le> sel" "sel < 7"
    "\<forall>x<7. x \<noteq> k \<longrightarrow> roomTypes ! x \<noteq> sel"
  shows "typesInv (Suc k) (roomTypes[k := sel])"
proof -
  have len: "length roomTypes = 7"
    and rng: "\<And>i. i < k \<Longrightarrow> 0 \<le> roomTypes ! i \<and> roomTypes ! i < 7"
    and dis: "\<And>i j. i < k \<Longrightarrow> j < k \<Longrightarrow> i \<noteq> j \<Longrightarrow> roomTypes ! i \<noteq> roomTypes ! j"
    and unset: "\<And>i. i < 7 \<Longrightarrow> k \<le> i \<Longrightarrow> roomTypes ! i = - 1"
    using assms(1) by (auto simp: typesInv_def)
  have new: "\<And>x. x < k \<Longrightarrow> roomTypes ! x \<noteq> sel" using assms(2,5) by auto
  have "\<forall>i<Suc k. 0 \<le> roomTypes[k := sel] ! i \<and> roomTypes[k := sel] ! i < 7"
    using rng assms(2-4) len by (auto simp: nth_list_update less_Suc_eq)
  moreover have "\<forall>i<Suc k. \<forall>j<Suc k. i \<noteq> j \<longrightarrow> roomTypes[k := sel] ! i \<noteq> roomTypes[k := sel] ! j"
    using dis new assms(2) len by (auto simp: nth_list_update less_Suc_eq)
  moreover have "\<forall>i<7. Suc k \<le> i \<longrightarrow> roomTypes[k := sel] ! i = - 1"
    using unset by (auto simp: nth_list_update)
  ultimately show ?thesis using len by (simp add: typesInv_def)
qed

lemma setupLoop_step:
  assumes "setupLoop opens sel g (k # rest) (roomTypes, files, rs) = Some (Inr r)"
  shows "opens k \<and> (\<exists>rt1 rs1 ftext. drawRoomType roomTypes k rs = Some (rt1, rs1)
           \<and> roomFileText (sel ! k) (map (\<lambda>v. sel ! nat v) (roomNeighbours g k))
                 (roomTypeName (rt1 ! k)) = Inr ftext
           \<and> setupLoop opens sel g rest (rt1, files @ [ftext], rs1) = Some (Inr r))"
proof -
  from assms have op: "opens k" by (auto split: if_splits)
  from assms op obtain l1 rt1 rs1 l2 l3 where
    l: "nameLine (sel ! k) = Inr l1" "drawRoomType roomTypes k rs = Some (rt1, rs1)"
      "connectionLines 0 (map (\<lambda>v. sel ! nat v) (roomNeighbours g k)) = Inr l2"
      "typeLine (roomTypeName (rt1 ! k)) = Inr l3"
    and r: "setupLoop opens sel g rest (rt1, files @ [l1 @ l2 @ l3], rs1) = Some (Inr r)"
    by (auto split: option.splits sum.splits)
  have "roomFileText (sel ! k) (map (\<lambda>v. sel ! nat v) (roomNeighbours g k))
                 (roomTypeName (rt1 ! k)) = Inr (l1 @ l2 @ l3)"
    using l by (simp add: roomFileText_def)
  with op l(2) r show ?thesis by blast
qed

lemma setupLoop_sound:
  assumes "setupLoop opens sel g [k..<7] (roomTypes, files, rs) = Some (Inr (roomTypes', files', rs'))"
    "typesInv k roomTypes" "k \<le> 7"
  shows "typesInv 7 roomTypes' \<and> (\<forall>i<k. roomTypes' ! i = roomTypes ! i)
       \<and> length files' = length files + (7 - k) \<and> (\<forall>i<length files. files' ! i = files ! i)
       \<and> (\<forall>i<7. k \<le> i \<longrightarrow> opens i \<and>
             roomFileText (sel ! i) (map (\<lambda>v. sel ! nat v) (roomNeighbours g i))
               (roomTypeName (roomTypes' ! i)) = Inr (files' ! (length files + (i - k))))"
  using assms
proof (induction "7 - k" arbitrary: k roomTypes files rs)
  case 0
  then have "k = 7" by simp
  with 0 show ?case by simp
next
  case (Suc n)
  then have k: "k < 7" by simp
  then have upt: "[k..<7] = k # [Suc k..<7]" by (simp add: upt_conv_Cons)
  from setupLoop_step[OF Suc.prems(1)[unfolded upt]] obtain rt1 rs1 ftext where
    op: "opens k" and d: "drawRoomType roomTypes k rs = Some (rt1, rs1)"
    and t: "roomFileText (sel ! k) (map (\<lambda>v. sel ! nat v) (roomNeighbours g k))
               (roomTypeName (rt1 ! k)) = Inr ftext"
    and rest: "setupLoop opens sel g [Suc k..<7] (rt1, files @ [ftext], rs1)
                 = Some (Inr (roomTypes', files', rs'))"
    by blast
  from drawRoomType_sound[OF d] obtain v where v: "0 \<le> v" "v < 7" "rt1 = roomTypes[k := v]"
    "\<forall>x<7. x \<noteq> k \<longrightarrow> roomTypes ! x \<noteq> v" by auto
  have inv1: "typesInv (Suc k) rt1" unfolding v(3)
    by (rule typesInv_step[OF Suc.prems(2) k v(1,2,4)])
  have n: "n = 7 - Suc k" using Suc.hyps(2) by simp
  from Suc.hyps(1)[OF n rest inv1] k
  have ih: "typesInv 7 roomTypes'" "\<forall>i<Suc k. roomTypes' ! i = rt1 ! i"
    "length files' = length (files @ [ftext]) + (7 - Suc k)"
    "\<forall>i<length (files @ [ftext]). files' ! i = (files @ [ftext]) ! i"
    "\<forall>i<7. Suc k \<le> i \<longrightarrow> opens i \<and>
             roomFileText (sel ! i) (map (\<lambda>v. sel ! nat v) (roomNeighbours g i))
               (roomTypeName (roomTypes' ! i)) = Inr (files' ! (length (files @ [ftext]) + (i - Suc k)))"
    by simp_all
  have a: "\<forall>i<k. roomTypes' ! i = roomTypes ! i"
    using ih(2) v(3) by (simp add: nth_list_update)
  have b: "length files' = length files + (7 - k)" using ih(3) k by simp
  have c: "\<forall>i<length files. files' ! i = files ! i"
    using ih(4) by (simp add: nth_append)
  have kk: "roomTypes' ! k = rt1 ! k" using ih(2) by simp
  have fk: "files' ! length files = ftext" using ih(4) by (simp add: nth_append)
  have e: "\<forall>i<7. k \<le> i \<longrightarrow> opens i \<and>
             roomFileText (sel ! i) (map (\<lambda>v. sel ! nat v) (roomNeighbours g i))
               (roomTypeName (roomTypes' ! i)) = Inr (files' ! (length files + (i - k)))"
  proof (intro allI impI)
    fix i assume i: "i < 7" "k \<le> i"
    show "opens i \<and>
             roomFileText (sel ! i) (map (\<lambda>v. sel ! nat v) (roomNeighbours g i))
               (roomTypeName (roomTypes' ! i)) = Inr (files' ! (length files + (i - k)))"
    proof (cases "i = k")
      case True
      then show ?thesis using op t kk fk by simp
    next
      case False
      then have "Suc k \<le> i" using i by simp
      moreover have "length (files @ [ftext]) + (i - Suc k) = length files + (i - k)"
        using \<open>Suc k \<le> i\<close> by simp
      ultimately show ?thesis using ih(5) i(1) by metis
    qed
  qed
  from ih(1) a b c e show ?case by blast
qed

lemma typesInv_init: "typesInv 0 (replicate 7 (- 1))"
  by (simp add: typesInv_def)

lemma typesInv_full:
  assumes "typesInv 7 roomTypes"
  shows "length roomTypes = 7 \<and> distinct roomTypes \<and> set roomTypes = {0..6}"
proof -
  have len: "length roomTypes = 7" using assms by (simp add: typesInv_def)
  have d: "distinct roomTypes"
    unfolding distinct_conv_nth using assms len by (auto simp: typesInv_def)
  have sub: "set roomTypes \<subseteq> {0..6}"
    using assms len by (auto simp: typesInv_def set_conv_nth)
  have "card (set roomTypes) = 7" using d len by (simp add: distinct_card)
  moreover have "card {0..6::int} = 7" by simp
  ultimately have "set roomTypes = {0..6}"
    using sub by (intro card_subset_eq) simp_all
  with len d show ?thesis by simp
qed

lemma roomTypeName_iff:
  "roomTypeName t = ''START_ROOM'' \<longleftrightarrow> t = 0"
  "roomTypeName t = ''END_ROOM'' \<longleftrightarrow> t = 6"
  "roomTypeName t = ''MID_ROOM'' \<longleftrightarrow> t \<noteq> 0 \<and> t \<noteq> 6"
  by (simp_all add: roomTypeName_def)

lemma role_counts:
  assumes "distinct roomTypes" "set roomTypes = {0..6}"
  shows "length (filter (\<lambda>t. roomTypeName t = ''START_ROOM'') roomTypes) = 1"
    "length (filter (\<lambda>t. roomTypeName t = ''END_ROOM'') roomTypes) = 1"
    "length (filter (\<lambda>t. roomTypeName t = ''MID_ROOM'') roomTypes) = 5"
proof -
  have "{t. t = 0} \<inter> {0..6::int} = {0}" "{t. t = 6} \<inter> {0..6::int} = {6}"
    "{t. t \<noteq> 0 \<and> t \<noteq> 6} \<inter> {0..6::int} = {1..5}" by auto
  then show "length (filter (\<lambda>t. roomTypeName t = ''START_ROOM'') roomTypes) = 1"
    "length (filter (\<lambda>t. roomTypeName t = ''END_ROOM'') roomTypes) = 1"
    "length (filter (\<lambda>t. roomTypeName t = ''MID_ROOM'') roomTypes) = 5"
    unfolding roomTypeName_iff using assms by (simp_all add: distinct_length_filter)
qed

section \<open>The connection slots of \<^verbatim>\<open>readFile\<close>\<close>

lemma readLine_Inr:
  assumes "readLine (r, n) l = Inr (r', n')"
  shows "n' = n + (if isConnectionLine l then 1 else 0) \<and> (isConnectionLine l \<longrightarrow> n < 6)"
  using assms
  by (auto simp: readLine_def isConnectionLine_def split: if_splits sum.splits)

lemma readLine_Inl:
  assumes "readLine (r, n) l = Inl e"
  shows "e = BufferOverflow \<or> (e = ConnectionSlot n \<and> isConnectionLine l \<and> 6 \<le> n)"
  using assms
  by (auto simp: readLine_def isConnectionLine_def strcpyInto_def split: if_splits sum.splits)

lemma readLoop_count:
  assumes "readLoop (r, n) ls = Inr (r', n')"
  shows "n' = n + length (filter isConnectionLine (map cstring ls))"
  using assms
proof (induction ls arbitrary: r n)
  case Nil
  then show ?case by simp
next
  case (Cons l ls)
  then obtain r1 n1 where 1: "readLine (r, n) (cstring l) = Inr (r1, n1)"
    and 2: "readLoop (r1, n1) ls = Inr (r', n')"
    by (auto split: sum.splits)
  from readLine_Inr[OF 1] Cons.IH[OF 2] show ?case by simp
qed

lemma readLoop_no_slot_fault:
  assumes "n + length (filter isConnectionLine (map cstring ls)) \<le> 6"
  shows "readLoop (r, n) ls \<noteq> Inl (ConnectionSlot k)"
  using assms
proof (induction ls arbitrary: r n)
  case Nil
  then show ?case by simp
next
  case (Cons l ls)
  show ?case
  proof (cases "readLine (r, n) (cstring l)")
    case (Inl e)
    from readLine_Inl[OF Inl] Cons.prems have "e = BufferOverflow" by auto
    with Inl show ?thesis by simp
  next
    case (Inr st)
    obtain r1 n1 where st: "st = (r1, n1)" by (cases st)
    from readLine_Inr[OF Inr[unfolded st]] Cons.prems
    have "n1 + length (filter isConnectionLine (map cstring ls)) \<le> 6" by (auto split: if_splits)
    from Cons.IH[OF this] show ?thesis using Inr st by simp
  qed
qed

lemma readLoop_slot_fault:
  assumes "n \<le> 6" "6 < n + length (filter isConnectionLine (map cstring ls))"
  shows "readLoop (r, n) ls = Inl (ConnectionSlot 6) \<or> readLoop (r, n) ls = Inl BufferOverflow"
  using assms
proof (induction ls arbitrary: r n)
  case Nil
  then show ?case by simp
next
  case (Cons l ls)
  show ?case
  proof (cases "readLine (r, n) (cstring l)")
    case (Inl e)
    from readLine_Inl[OF Inl] Cons.prems(1) have "e = BufferOverflow \<or> e = ConnectionSlot 6" by auto
    with Inl show ?thesis by auto
  next
    case (Inr st)
    obtain r1 n1 where st: "st = (r1, n1)" by (cases st)
    from readLine_Inr[OF Inr[unfolded st]] Cons.prems
    have "n1 \<le> 6" "6 < n1 + length (filter isConnectionLine (map cstring ls))"
      by (auto split: if_splits)
    from Cons.IH[OF this] show ?thesis using Inr st by simp
  qed
qed

text \<open>
  Claim C10. \<^verbatim>\<open>readFile\<close> writes each connection line to \<^verbatim>\<open>roomConnections[connNumber]\<close>
  without a check. For a file with at most six connection lines no such write leaves the
  array: when the loop reaches a connection line, \<^verbatim>\<open>connNumber\<close> is the number of
  connection lines before it, so below 6. With more than six connection lines the seventh
  is written to slot 6, outside the array, unless an earlier line already overran its
  string buffer.
\<close>

theorem connection_slot_bounds:
  "(length (connectionLinesOf file) \<le> 6 \<longrightarrow> (\<forall>k. readFile file \<noteq> Inl (ConnectionSlot k)))
   \<and> (\<forall>pre l post roomObj connNumber.
         fileLines 255 file = pre @ l # post \<and> isConnectionLine (cstring l)
         \<and> readLoop (initializeData, 0) pre = Inr (roomObj, connNumber)
         \<longrightarrow> connNumber = length (filter isConnectionLine (map cstring pre))
             \<and> (length (connectionLinesOf file) \<le> 6 \<longrightarrow> connNumber < 6))
   \<and> (6 < length (connectionLinesOf file) \<longrightarrow>
         readFile file = Inl (ConnectionSlot 6) \<or> readFile file = Inl BufferOverflow)"
proof (intro conjI impI allI)
  assume "length (connectionLinesOf file) \<le> 6"
  then have "readLoop (initializeData, 0) (fileLines 255 file) \<noteq> Inl (ConnectionSlot k)" for k
    using readLoop_no_slot_fault[of 0 "fileLines 255 file"] by (simp add: connectionLinesOf_def)
  then show "readFile file \<noteq> Inl (ConnectionSlot k)" for k
    by (auto simp: readFile_def split: sum.splits)
next
  fix pre l post roomObj connNumber
  assume a: "fileLines 255 file = pre @ l # post \<and> isConnectionLine (cstring l)
         \<and> readLoop (initializeData, 0) pre = Inr (roomObj, connNumber)"
  then show c: "connNumber = length (filter isConnectionLine (map cstring pre))"
    using readLoop_count[of initializeData 0 pre roomObj connNumber] by simp
  assume "length (connectionLinesOf file) \<le> 6"
  with a c show "connNumber < 6" by (simp add: connectionLinesOf_def)
next
  assume "6 < length (connectionLinesOf file)"
  then have "readLoop (initializeData, 0) (fileLines 255 file) = Inl (ConnectionSlot 6)
      \<or> readLoop (initializeData, 0) (fileLines 255 file) = Inl BufferOverflow"
    using readLoop_slot_fault[of 0 "fileLines 255 file"] by (simp add: connectionLinesOf_def)
  then show "readFile file = Inl (ConnectionSlot 6) \<or> readFile file = Inl BufferOverflow"
    by (auto simp: readFile_def)
qed

lemma twoConnections_run:
  "length (connectionLinesOf twoConnections) = 2
   \<and> fileLines 255 twoConnections
       = [''ROOM NAME: Attic\<newline>'', ''CONNECTION 1: Dungeon\<newline>'']
         @ ''CONNECTION 2: Barracks\<newline>'' # [''ROOM TYPE: END_ROOM\<newline>'']
   \<and> isConnectionLine (cstring ''CONNECTION 2: Barracks\<newline>'')
   \<and> readLoop (initializeData, 0) [''ROOM NAME: Attic\<newline>'', ''CONNECTION 1: Dungeon\<newline>'']
       = Inr (\<lparr>roomName = Some ''Attic'', roomType = None,
                roomConnections = [Some ''Dungeon'', None, None, None, None, None]\<rparr>, 1)"
  by code_simp

lemma sevenConnections_run:
  "length (connectionLinesOf sevenConnections) = 7
   \<and> readFile sevenConnections = Inl (ConnectionSlot 6)"
  by code_simp

theorem connection_slot_bounds_witness:
  "length (connectionLinesOf twoConnections) \<le> 6
   \<and> readFile twoConnections \<noteq> Inl (ConnectionSlot 2)
   \<and> isConnectionLine (cstring ''CONNECTION 2: Barracks\<newline>'')
   \<and> (1::nat) = length (filter isConnectionLine
         (map cstring [''ROOM NAME: Attic\<newline>'', ''CONNECTION 1: Dungeon\<newline>'']))
   \<and> 6 < length (connectionLinesOf sevenConnections)
   \<and> (readFile sevenConnections = Inl (ConnectionSlot 6)
        \<or> readFile sevenConnections = Inl BufferOverflow)"
proof -
  note t2 = connection_slot_bounds[of twoConnections]
  note t7 = connection_slot_bounds[of sevenConnections]
  have le: "length (connectionLinesOf twoConnections) \<le> 6" using twoConnections_run by simp
  have gt: "6 < length (connectionLinesOf sevenConnections)" using sevenConnections_run by simp
  from t2 le have a: "readFile twoConnections \<noteq> Inl (ConnectionSlot 2)" by blast
  from t2 twoConnections_run
  have b: "(1::nat) = length (filter isConnectionLine
         (map cstring [''ROOM NAME: Attic\<newline>'', ''CONNECTION 1: Dungeon\<newline>'']))"
    by blast
  from t7 gt have c: "readFile sevenConnections = Inl (ConnectionSlot 6)
        \<or> readFile sevenConnections = Inl BufferOverflow" by blast
  from le a b c gt twoConnections_run show ?thesis by blast
qed

section \<open>Writing a room file and reading it back\<close>

lemma rooms_poolName: "n \<in> set rooms \<Longrightarrow> poolName n"
  by (auto simp: rooms_def poolName_def)

lemma fgetsLine_line:
  "CHR 0x0A \<notin> set l \<Longrightarrow> length l < n \<Longrightarrow> fgetsLine n (l @ CHR 0x0A # rest) = (l @ [CHR 0x0A], rest)"
proof (induction l arbitrary: n)
  case Nil
  then obtain m where "n = Suc m" by (cases n) auto
  then show ?case by simp
next
  case (Cons c l)
  then obtain m where n: "n = Suc m" by (cases n) auto
  with Cons.prems have "length l < m" "CHR 0x0A \<notin> set l" "c \<noteq> CHR 0x0A" by auto
  with Cons.IH[of m] show ?case unfolding n by simp
qed

lemma fileLines_line:
  assumes "CHR 0x0A \<notin> set l" "length l < 254"
  shows "fileLines 255 (l @ CHR 0x0A # rest) = (l @ [CHR 0x0A]) # fileLines 255 rest"
  by (subst fileLines.simps) (simp add: fgets_def fgetsLine_line[OF assms])

lemma fileLines_Nil: "fileLines 255 [] = []"
  by (subst fileLines.simps) (simp add: fgets_def)

lemma cstring_id: "CHR 0x00 \<notin> set s \<Longrightarrow> cstring s = s"
  by (auto simp: cstring_def takeWhile_eq_all_conv)

lemma filter_newline_id: "CHR 0x0A \<notin> set n \<Longrightarrow> filter (\<lambda>c. c \<noteq> CHR 0x0A) n = n"
  by (auto simp: filter_id_conv)

lemma strstr_prefix: "strstr (needle @ rest) needle"
proof (cases "needle @ rest")
  case Nil
  then show ?thesis by simp
next
  case (Cons a list)
  have "prefix needle (a # list)" unfolding Cons[symmetric] by simp
  then show ?thesis unfolding Cons by simp
qed

lemma strstr_no_first: "c \<notin> set hay \<Longrightarrow> \<not> strstr hay (c # needle)"
  by (induction hay) auto

lemma showNat_digit:
  assumes "k < 10"
  shows "\<exists>d. showNat k = [d] \<and> d \<in> set ''0123456789''"
proof -
  have "showNat k = [''0123456789'' ! k]" using assms by (subst showNat.simps) simp
  moreover have "''0123456789'' ! k \<in> set ''0123456789''"
    using assms by (intro nth_mem) simp
  ultimately show ?thesis by blast
qed

lemma nameLine_ok:
  assumes "poolName n"
  shows "nameLine n = Inr (''ROOM NAME: '' @ n @ [CHR 0x0A])"
  using assms by (simp add: nameLine_def strcpyInto_def poolName_def)

lemma typeLine_ok:
  assumes "ty \<in> {''START_ROOM'', ''MID_ROOM'', ''END_ROOM''}"
  shows "typeLine ty = Inr (''ROOM TYPE: '' @ ty @ [CHR 0x0A])"
  using assms by (auto simp: typeLine_def strcpyInto_def)

lemma connectionLine_ok:
  assumes "poolName n" "k < 10"
  shows "\<exists>d. d \<in> set ''0123456789''
           \<and> connectionLine k n = Inr (''CONNECTION '' @ [d] @ '': '' @ n @ [CHR 0x0A])"
proof -
  from showNat_digit[OF assms(2)] obtain d where d: "showNat k = [d]" "d \<in> set ''0123456789''"
    by blast
  have "connectionLine k n = Inr (''CONNECTION '' @ [d] @ '': '' @ n @ [CHR 0x0A])"
    using assms(1) by (simp add: connectionLine_def strcpyInto_def d(1) poolName_def)
  with d(2) show ?thesis by blast
qed

lemma readLine_name:
  assumes "poolName n"
  shows "readLine (r, c) (cstring (''ROOM NAME: '' @ n @ [CHR 0x0A])) = Inr (r\<lparr>roomName := Some n\<rparr>, c)"
proof -
  let ?l = "''ROOM NAME: '' @ n @ [CHR 0x0A]"
  have cs: "cstring ?l = ?l" using assms by (intro cstring_id) (simp add: poolName_def)
  have s: "strstr ?l ''ROOM NAME:''"
    using strstr_prefix[of "''ROOM NAME:''" "'' '' @ n @ [CHR 0x0A]"] by simp
  have p: "payload 11 ?l = n" using assms by (simp add: payload_def poolName_def filter_newline_id)
  show ?thesis unfolding cs
    using assms by (simp only: readLine_def prod.case s if_True p) (simp add: strcpyInto_def poolName_def)
qed

lemma readLine_type:
  assumes "ty \<in> {''START_ROOM'', ''MID_ROOM'', ''END_ROOM''}"
  shows "readLine (r, c) (cstring (''ROOM TYPE: '' @ ty @ [CHR 0x0A])) = Inr (r\<lparr>roomType := Some ty\<rparr>, c)"
proof -
  let ?l = "''ROOM TYPE: '' @ ty @ [CHR 0x0A]"
  have cs: "cstring ?l = ?l" using assms by (intro cstring_id) auto
  have s1: "\<not> strstr ?l ''ROOM NAME:''" using assms by auto
  have s2: "strstr ?l ''ROOM TYPE:''"
    using strstr_prefix[of "''ROOM TYPE:''" "'' '' @ ty @ [CHR 0x0A]"] by simp
  have p: "payload 11 ?l = ty" using assms by (auto simp: payload_def)
  show ?thesis unfolding cs
    using assms by (simp only: readLine_def prod.case s1 s2 if_True if_False p) (auto simp: strcpyInto_def)
qed

lemma readLine_connection:
  assumes "poolName n" "d \<in> set ''0123456789''" "c < 6"
  shows "readLine (r, c) (cstring (''CONNECTION '' @ [d] @ '': '' @ n @ [CHR 0x0A]))
           = Inr (r\<lparr>roomConnections := (roomConnections r)[c := Some n]\<rparr>, c + 1)"
proof -
  let ?l = "''CONNECTION '' @ [d] @ '': '' @ n @ [CHR 0x0A]"
  have cs: "cstring ?l = ?l" using assms by (intro cstring_id) (auto simp: poolName_def)
  have noR: "CHR ''R'' \<notin> set ?l" using assms by (auto simp: poolName_def)
  have s1: "\<not> strstr ?l ''ROOM NAME:''" "\<not> strstr ?l ''ROOM TYPE:''"
    using strstr_no_first[OF noR] by simp_all
  have s3: "strstr ?l ''CONNECTION''"
    using strstr_prefix[of "''CONNECTION''" "'' '' @ [d] @ '': '' @ n @ [CHR 0x0A]"] by simp
  have p: "payload 14 ?l = n" using assms by (simp add: payload_def poolName_def filter_newline_id)
  show ?thesis unfolding cs
    using assms by (simp only: readLine_def prod.case s1 s3 if_True if_False p)
      (simp add: strcpyInto_def poolName_def)
qed

lemma connections_roundtrip:
  assumes "\<forall>n\<in>set conns. poolName n" "c + length conns \<le> 6"
  shows "\<exists>text. connectionLines c conns = Inr text
           \<and> (\<forall>r tail. length (roomConnections r) = 6 \<longrightarrow>
                 readLoop (r, c) (fileLines 255 (text @ tail))
                 = readLoop (r\<lparr>roomConnections := take c (roomConnections r) @ map Some conns
                                   @ drop (c + length conns) (roomConnections r)\<rparr>,
                             c + length conns) (fileLines 255 tail))"
  using assms
proof (induction conns arbitrary: c)
  case Nil
  then show ?case by simp
next
  case (Cons n conns)
  have pn: "poolName n" using Cons.prems(1) by simp
  have c6: "c < 6" using Cons.prems(2) by simp
  from connectionLine_ok[OF pn, of "c + 1"] c6 obtain d where d: "d \<in> set ''0123456789''"
    and cl: "connectionLine (c + 1) n = Inr (''CONNECTION '' @ [d] @ '': '' @ n @ [CHR 0x0A])"
    by auto
  let ?body = "''CONNECTION '' @ [d] @ '': '' @ n"
  from Cons.IH[of "c + 1"] Cons.prems obtain text' where
    t': "connectionLines (c + 1) conns = Inr text'"
    and ih: "\<And>r tail. length (roomConnections r) = 6 \<Longrightarrow>
                 readLoop (r, c + 1) (fileLines 255 (text' @ tail))
                 = readLoop (r\<lparr>roomConnections := take (c + 1) (roomConnections r) @ map Some conns
                                   @ drop (c + 1 + length conns) (roomConnections r)\<rparr>,
                             c + 1 + length conns) (fileLines 255 tail)"
    by auto
  have tx: "connectionLines c (n # conns) = Inr ((?body @ [CHR 0x0A]) @ text')"
    using cl t' by simp
  have nl: "CHR 0x0A \<notin> set ?body" using pn d by (auto simp: poolName_def)
  have len: "length ?body < 254" using pn by (simp add: poolName_def)
  have step: "readLoop (r, c) (fileLines 255 (((?body @ [CHR 0x0A]) @ text') @ tail))
           = readLoop (r\<lparr>roomConnections := take c (roomConnections r) @ map Some (n # conns)
                                   @ drop (c + length (n # conns)) (roomConnections r)\<rparr>,
                             c + length (n # conns)) (fileLines 255 tail)"
    if r6: "length (roomConnections r) = 6" for r tail
  proof -
    let ?r1 = "r\<lparr>roomConnections := (roomConnections r)[c := Some n]\<rparr>"
    have "fileLines 255 (((?body @ [CHR 0x0A]) @ text') @ tail)
            = (?body @ [CHR 0x0A]) # fileLines 255 (text' @ tail)"
      using fileLines_line[OF nl len, of "text' @ tail"] by simp
    moreover have "readLine (r, c) (cstring (?body @ [CHR 0x0A])) = Inr (?r1, c + 1)"
      using readLine_connection[OF pn d c6, of r] by simp
    ultimately have "readLoop (r, c) (fileLines 255 (((?body @ [CHR 0x0A]) @ text') @ tail))
            = readLoop (?r1, c + 1) (fileLines 255 (text' @ tail))"
      by simp
    also have "\<dots> = readLoop (?r1\<lparr>roomConnections := take (c + 1) (roomConnections ?r1)
                  @ map Some conns @ drop (c + 1 + length conns) (roomConnections ?r1)\<rparr>,
                c + 1 + length conns) (fileLines 255 tail)"
      by (rule ih) (simp add: r6)
    also have "take (c + 1) (roomConnections ?r1) = take c (roomConnections r) @ [Some n]"
      using c6 r6 by (simp add: take_Suc_conv_app_nth)
    also have "drop (c + 1 + length conns) (roomConnections ?r1)
                 = drop (c + length (n # conns)) (roomConnections r)"
      by simp
    finally show ?thesis by simp
  qed
  from tx step show ?case by blast
qed

text \<open>
  Claim C3. For a name of the ten-name pool, a list of at most six connection names of the
  pool and one of the three room types, the Graph Builder writes a file text without a
  fault, and \<^verbatim>\<open>readFile\<close> on that text returns the same name, the same type and the
  same connections in the same order, the unused slots NULL.
\<close>

theorem room_file_roundtrip:
  assumes "name \<in> set rooms" "set connections \<subseteq> set rooms" "length connections \<le> 6"
    "ty \<in> {''START_ROOM'', ''MID_ROOM'', ''END_ROOM''}"
  shows "\<exists>text. roomFileText name connections ty = Inr text
           \<and> readFile text = Inr \<lparr>roomName = Some name, roomType = Some ty,
                 roomConnections = map Some connections @ replicate (6 - length connections) None\<rparr>"
proof -
  have pn: "poolName name" by (rule rooms_poolName[OF assms(1)])
  have pc: "\<forall>n\<in>set connections. poolName n" using assms(2) rooms_poolName by blast
  from connections_roundtrip[OF pc, of 0] assms(3) obtain l2 where
    l2: "connectionLines 0 connections = Inr l2"
    and rt: "\<And>r tail. length (roomConnections r) = 6 \<Longrightarrow>
                 readLoop (r, 0) (fileLines 255 (l2 @ tail))
                 = readLoop (r\<lparr>roomConnections := map Some connections
                                   @ drop (length connections) (roomConnections r)\<rparr>,
                             length connections) (fileLines 255 tail)"
    by auto
  let ?b1 = "''ROOM NAME: '' @ name"
  let ?b3 = "''ROOM TYPE: '' @ ty"
  let ?text = "(?b1 @ [CHR 0x0A]) @ l2 @ (?b3 @ [CHR 0x0A])"
  have tx: "roomFileText name connections ty = Inr ?text"
    by (simp add: roomFileText_def nameLine_ok[OF pn] l2 typeLine_ok[OF assms(4)])
  have nl1: "CHR 0x0A \<notin> set ?b1" "length ?b1 < 254" using pn by (auto simp: poolName_def)
  have nl3: "CHR 0x0A \<notin> set ?b3" "length ?b3 < 254" using assms(4) by auto
  let ?r1 = "initializeData\<lparr>roomName := Some name\<rparr>"
  let ?r2 = "?r1\<lparr>roomConnections := map Some connections
                @ drop (length connections) (roomConnections ?r1)\<rparr>"
  have "fileLines 255 ?text = (?b1 @ [CHR 0x0A]) # fileLines 255 (l2 @ (?b3 @ [CHR 0x0A]))"
    using fileLines_line[OF nl1, of "l2 @ (?b3 @ [CHR 0x0A])"] by simp
  then have "readLoop (initializeData, 0) (fileLines 255 ?text)
      = readLoop (?r1, 0) (fileLines 255 (l2 @ (?b3 @ [CHR 0x0A])))"
    using readLine_name[OF pn, of initializeData 0] by simp
  also have "\<dots> = readLoop (?r2, length connections) (fileLines 255 (?b3 @ [CHR 0x0A]))"
    by (rule rt) (simp add: initializeData_def)
  also have "fileLines 255 (?b3 @ [CHR 0x0A]) = [?b3 @ [CHR 0x0A]]"
    using fileLines_line[OF nl3, of "[]"] by (simp add: fileLines_Nil)
  also have "readLoop (?r2, length connections) [?b3 @ [CHR 0x0A]]
      = Inr (?r2\<lparr>roomType := Some ty\<rparr>, length connections)"
    using readLine_type[OF assms(4), of ?r2 "length connections"] by simp
  finally have "readFile ?text = Inr (?r2\<lparr>roomType := Some ty\<rparr>)"
    by (simp add: readFile_def)
  moreover have "?r2\<lparr>roomType := Some ty\<rparr> = \<lparr>roomName = Some name, roomType = Some ty,
                 roomConnections = map Some connections @ replicate (6 - length connections) None\<rparr>"
    by (simp add: initializeData_def)
  ultimately show ?thesis using tx by simp
qed

lemma roundtrip_example_text:
  "roomFileText ''Barracks'' [''Dungeon'', ''Garden'', ''Medical''] ''START_ROOM''
     = Inr ''ROOM NAME: Barracks\<newline>CONNECTION 1: Dungeon\<newline>CONNECTION 2: Garden\<newline>CONNECTION 3: Medical\<newline>ROOM TYPE: START_ROOM\<newline>''"
  by code_simp

theorem room_file_roundtrip_witness:
  "''Barracks'' \<in> set rooms
   \<and> set [''Dungeon'', ''Garden'', ''Medical''] \<subseteq> set rooms
   \<and> length [''Dungeon'', ''Garden'', ''Medical''] \<le> 6
   \<and> ''START_ROOM'' \<in> {''START_ROOM'', ''MID_ROOM'', ''END_ROOM''}
   \<and> readFile ''ROOM NAME: Barracks\<newline>CONNECTION 1: Dungeon\<newline>CONNECTION 2: Garden\<newline>CONNECTION 3: Medical\<newline>ROOM TYPE: START_ROOM\<newline>''
       = Inr \<lparr>roomName = Some ''Barracks'', roomType = Some ''START_ROOM'',
              roomConnections = [Some ''Dungeon'', Some ''Garden'', Some ''Medical'', None, None, None]\<rparr>"
proof -
  have h: "''Barracks'' \<in> set rooms" "set [''Dungeon'', ''Garden'', ''Medical''] \<subseteq> set rooms"
    "length [''Dungeon'', ''Garden'', ''Medical''] \<le> 6"
    "''START_ROOM'' \<in> {''START_ROOM'', ''MID_ROOM'', ''END_ROOM''}"
    by (simp_all add: rooms_def)
  from room_file_roundtrip[OF h] roundtrip_example_text
  have "readFile ''ROOM NAME: Barracks\<newline>CONNECTION 1: Dungeon\<newline>CONNECTION 2: Garden\<newline>CONNECTION 3: Medical\<newline>ROOM TYPE: START_ROOM\<newline>''
       = Inr \<lparr>roomName = Some ''Barracks'', roomType = Some ''START_ROOM'',
              roomConnections = map Some [''Dungeon'', ''Garden'', ''Medical'']
                @ replicate (6 - length [''Dungeon'', ''Garden'', ''Medical'']) None\<rparr>"
    by auto
  then have "readFile ''ROOM NAME: Barracks\<newline>CONNECTION 1: Dungeon\<newline>CONNECTION 2: Garden\<newline>CONNECTION 3: Medical\<newline>ROOM TYPE: START_ROOM\<newline>''
       = Inr \<lparr>roomName = Some ''Barracks'', roomType = Some ''START_ROOM'',
              roomConnections = [Some ''Dungeon'', Some ''Garden'', Some ''Medical'', None, None, None]\<rparr>"
    by (simp add: numeral_eq_Suc)
  with h show ?thesis by blast
qed

section \<open>Role assignment returns\<close>

lemma drawRoomType_total:
  assumes "roomTypes ! fileNum = - 1 \<or> (\<exists>x<7. x \<noteq> fileNum \<and> roomTypes ! x = roomTypes ! fileNum)"
    "fileNum < 7" "length roomTypes = 7"
    "\<forall>x<7. x \<noteq> fileNum \<longrightarrow> roomTypes ! x \<noteq> int v" "rs !! m mod 7 = v"
  shows "\<exists>r. drawRoomType roomTypes fileNum rs = Some r"
  using assms
proof (induction m arbitrary: rs roomTypes)
  case 0
  then have sel: "int (shd rs mod 7) = int v" by simp
  have "\<not> (\<exists>x<7. roomTypes ! x = int v)"
  proof
    assume "\<exists>x<7. roomTypes ! x = int v"
    then obtain x where x: "x < 7" "roomTypes ! x = int v" by blast
    with 0(4) have "x = fileNum" by blast
    with x 0(1,4) show False by auto
  qed
  with sel have "\<not> list_ex (\<lambda>x. roomTypes ! x = int (shd rs mod 7)) [0..<7]"
    by (simp add: list_ex_upt7)
  then show ?case
    by (subst drawRoomType.simps) (simp add: Let_def)
next
  case (Suc m)
  let ?sel = "int (shd rs mod 7)"
  show ?case
  proof (cases "\<exists>x<7. roomTypes ! x = ?sel")
    case False
    then have "\<not> list_ex (\<lambda>x. roomTypes ! x = ?sel) [0..<7]" by (simp add: list_ex_upt7)
    then show ?thesis by (subst drawRoomType.simps) (simp add: Let_def)
  next
    case True
    let ?rt = "roomTypes[fileNum := ?sel]"
    have other: "\<exists>x<7. x \<noteq> fileNum \<and> roomTypes ! x = ?sel"
    proof -
      from True obtain x where x: "x < 7" "roomTypes ! x = ?sel" by blast
      show ?thesis
      proof (cases "x = fileNum")
        case False
        with x show ?thesis by blast
      next
        case True
        with x have "roomTypes ! fileNum \<noteq> - 1" by simp
        with Suc.prems(1) True x show ?thesis by auto
      qed
    qed
    have 1: "?rt ! fileNum = - 1 \<or> (\<exists>x<7. x \<noteq> fileNum \<and> ?rt ! x = ?rt ! fileNum)"
      using other Suc.prems(2,3) by auto
    have 2: "length ?rt = 7" using Suc.prems(3) by simp
    have 3: "\<forall>x<7. x \<noteq> fileNum \<longrightarrow> ?rt ! x \<noteq> int v" using Suc.prems(4) by simp
    have 4: "stl rs !! m mod 7 = v" using Suc.prems(5) by simp
    from Suc.IH[OF 1 Suc.prems(2) 2 3 4] obtain r where
      "drawRoomType ?rt fileNum (stl rs) = Some r" by blast
    moreover from True have "list_ex (\<lambda>x. roomTypes ! x = ?sel) [0..<7]" by (simp add: list_ex_upt7)
    ultimately show ?thesis by (subst drawRoomType.simps) (simp add: Let_def)
  qed
qed

lemma free_type_exists:
  assumes "typesInv k roomTypes" "k < 7"
  shows "\<exists>v<7. \<forall>x<7. x \<noteq> k \<longrightarrow> roomTypes ! x \<noteq> int v"
proof -
  let ?S = "(\<lambda>i. roomTypes ! i) ` {..<k}"
  have "card ?S \<le> k" using card_image_le[of "{..<k}" "\<lambda>i. roomTypes ! i"] by simp
  then have small: "card ?S < 7" using assms(2) by simp
  have "\<exists>v<7. int v \<notin> ?S"
  proof (rule ccontr)
    assume "\<not> ?thesis"
    then have "int ` {..<7} \<subseteq> ?S" by auto
    then have "card (int ` {..<7::nat}) \<le> card ?S" by (intro card_mono) auto
    moreover have "card (int ` {..<7::nat}) = 7" by (simp add: card_image)
    ultimately show False using small by simp
  qed
  then obtain v where v: "v < 7" "int v \<notin> ?S" by blast
  have "\<forall>x<7. x \<noteq> k \<longrightarrow> roomTypes ! x \<noteq> int v"
  proof (intro allI impI)
    fix x assume x: "x < 7" "x \<noteq> k"
    show "roomTypes ! x \<noteq> int v"
    proof (cases "x < k")
      case True
      then have "roomTypes ! x \<in> ?S" by simp
      with v(2) show ?thesis by metis
    next
      case False
      then have "roomTypes ! x = - 1" using assms(1) x by (simp add: typesInv_def)
      then show ?thesis by simp
    qed
  qed
  with v(1) show ?thesis by blast
qed

lemma roomFileText_pool:
  assumes "length selectedRooms = 7" "set selectedRooms \<subseteq> set rooms" "graphInv g" "i < 7"
  shows "\<exists>l1 l2 l3. nameLine (selectedRooms ! i) = Inr l1
           \<and> connectionLines 0 (map (\<lambda>v. selectedRooms ! nat v) (roomNeighbours g i)) = Inr l2
           \<and> typeLine (roomTypeName t) = Inr l3"
proof -
  have mem: "\<And>j. j < 7 \<Longrightarrow> poolName (selectedRooms ! j)"
    using assms(1,2) rooms_poolName by (metis nth_mem subsetD)
  have 1: "nameLine (selectedRooms ! i) = Inr (''ROOM NAME: '' @ selectedRooms ! i @ [CHR 0x0A])"
    by (rule nameLine_ok[OF mem[OF assms(4)]])
  have nb: "roomNeighbours g i = map int (filter (\<lambda>c. g ! i ! c \<noteq> - 1) [0..<7])"
    by (rule roomNeighbours_inv[OF assms(3,4)])
  have "\<forall>n\<in>set (map (\<lambda>v. selectedRooms ! nat v) (roomNeighbours g i)). poolName n"
    unfolding nb using mem by auto
  moreover have "length (roomNeighbours g i) = countConnections (g ! i)"
    by (simp add: roomNeighbours_def countConnections_def foldl_count)
  then have "0 + length (map (\<lambda>v. selectedRooms ! nat v) (roomNeighbours g i)) \<le> 6"
    using countConnections_le6[OF assms(3,4)] by simp
  ultimately obtain l2 where
    2: "connectionLines 0 (map (\<lambda>v. selectedRooms ! nat v) (roomNeighbours g i)) = Inr l2"
    using connections_roundtrip by blast
  have "roomTypeName t \<in> {''START_ROOM'', ''MID_ROOM'', ''END_ROOM''}"
    by (simp add: roomTypeName_def)
  from typeLine_ok[OF this] 1 2 show ?thesis by blast
qed

lemma setupLoop_total:
  assumes "typesInv k roomTypes" "k \<le> 7" "fairDraws rs" "\<forall>i<7. opens i"
    "length selectedRooms = 7" "set selectedRooms \<subseteq> set rooms" "graphInv g"
  shows "\<exists>r. setupLoop opens selectedRooms g [k..<7] (roomTypes, files, rs) = Some (Inr r)"
  using assms(1-3)
proof (induction "7 - k" arbitrary: k roomTypes files rs)
  case 0
  then show ?case by simp
next
  case (Suc n)
  then have k: "k < 7" by simp
  then have upt: "[k..<7] = k # [Suc k..<7]" by (simp add: upt_conv_Cons)
  from free_type_exists[OF Suc.prems(1) k] obtain v where
    v: "v < 7" "\<forall>x<7. x \<noteq> k \<longrightarrow> roomTypes ! x \<noteq> int v" by blast
  from fairDraws_ex[OF Suc.prems(3) v(1)] obtain m where m: "rs !! m mod 7 = v" by blast
  have unset: "roomTypes ! k = - 1" and len: "length roomTypes = 7"
    using Suc.prems(1) k by (simp_all add: typesInv_def)
  from drawRoomType_total[OF _ k len v(2) m] unset obtain rt1 rs1 where
    d: "drawRoomType roomTypes k rs = Some (rt1, rs1)" by force
  from drawRoomType_sound[OF d] obtain w j where w: "0 \<le> w" "w < 7" "rt1 = roomTypes[k := w]"
    "\<forall>x<7. x \<noteq> k \<longrightarrow> roomTypes ! x \<noteq> w" "rs1 = sdrop j rs" by auto
  have inv1: "typesInv (Suc k) rt1" unfolding w(3)
    by (rule typesInv_step[OF Suc.prems(1) k w(1,2,4)])
  have fair1: "fairDraws rs1" unfolding w(5) by (rule fairDraws_sdrop[OF Suc.prems(3)])
  from roomFileText_pool[OF assms(5-7) k, of "rt1 ! k"] obtain l1 l2 l3 where
    l: "nameLine (selectedRooms ! k) = Inr l1"
      "connectionLines 0 (map (\<lambda>v. selectedRooms ! nat v) (roomNeighbours g k)) = Inr l2"
      "typeLine (roomTypeName (rt1 ! k)) = Inr l3" by blast
  have n: "n = 7 - Suc k" using Suc.hyps(2) by simp
  from Suc.hyps(1)[OF n inv1 _ fair1, of "files @ [l1 @ l2 @ l3]"] k
  obtain r where "setupLoop opens selectedRooms g [Suc k..<7] (rt1, files @ [l1 @ l2 @ l3], rs1)
      = Some (Inr r)" by auto
  then show ?case
    unfolding upt using assms(4) k d l by (simp del: split_paired_Ex)
qed

lemma setupRoomFiles_sound:
  assumes "setupRoomFiles opens selectedRooms roomGraph rs = Some (Inr (roomTypes, files, rs'))"
  shows "length roomTypes = 7 \<and> distinct roomTypes \<and> set roomTypes = {0..6}
       \<and> length (filter (\<lambda>t. roomTypeName t = ''START_ROOM'') roomTypes) = 1
       \<and> length (filter (\<lambda>t. roomTypeName t = ''END_ROOM'') roomTypes) = 1
       \<and> length (filter (\<lambda>t. roomTypeName t = ''MID_ROOM'') roomTypes) = 5
       \<and> length files = 7
       \<and> (\<forall>i<7. opens i \<and>
             roomFileText (selectedRooms ! i)
               (map (\<lambda>v. selectedRooms ! nat v) (roomNeighbours roomGraph i))
               (roomTypeName (roomTypes ! i)) = Inr (files ! i))"
proof -
  from assms have "setupLoop opens selectedRooms roomGraph [0..<7] (replicate 7 (- 1), [], rs)
      = Some (Inr (roomTypes, files, rs'))" by (simp add: setupRoomFiles_def)
  from setupLoop_sound[OF this typesInv_init]
  have inv: "typesInv 7 roomTypes" and len: "length files = 7"
    and ftext: "\<forall>i<7. opens i \<and>
             roomFileText (selectedRooms ! i)
               (map (\<lambda>v. selectedRooms ! nat v) (roomNeighbours roomGraph i))
               (roomTypeName (roomTypes ! i)) = Inr (files ! i)"
    by simp_all
  from typesInv_full[OF inv] have p: "length roomTypes = 7" "distinct roomTypes"
    "set roomTypes = {0..6}" by simp_all
  from role_counts[OF p(2,3)] p len ftext show ?thesis by blast
qed

lemma drawRoomType_unique:
  assumes "\<not> list_ex (\<lambda>x. roomTypes ! x = int (shd rs mod 7)) [0..<7]"
  shows "drawRoomType roomTypes fileNum rs
           = Some (roomTypes[fileNum := int (shd rs mod 7)], stl rs)"
  using assms by (subst drawRoomType.simps) (simp add: Let_def)

lemma drawRoomType_zero_forever:
  assumes "roomTypes ! 0 = 0"
  shows "drawRoomType roomTypes 6 (sconst 0) = None"
proof (rule ccontr)
  assume "drawRoomType roomTypes 6 (sconst 0) \<noteq> None"
  then obtain r where r: "drawRoomType roomTypes 6 (sconst 0) = Some r" by auto
  have "\<not> (roomTypes ! 0 = 0 \<and> (6::nat) = 6 \<and> sconst 0 = sconst (0::nat))"
  proof (rule drawRoomType.raw_induct[where P = "\<lambda>roomTypes fileNum rs r.
      \<not> (roomTypes ! 0 = 0 \<and> fileNum = 6 \<and> rs = sconst 0)", OF _ r], goal_cases)
    case (1 f roomTypes fileNum rs r)
    show ?case
    proof
      assume a: "roomTypes ! 0 = 0 \<and> fileNum = 6 \<and> rs = sconst 0"
      then have dup: "list_ex (\<lambda>x. roomTypes ! x = int (shd rs mod 7)) [0..<7]"
        by (auto simp: list_ex_upt7 intro!: exI[of _ 0])
      have "stl rs = sconst 0" using a by simp
      with 1(2) dup a have "f (roomTypes[6 := 0]) 6 (sconst 0) = Some r"
        by (simp add: Let_def)
      from 1(1)[OF this] a show False by simp
    qed
  qed
  with assms show False by simp
qed

lemma setupRoomFiles_last_draw:
  assumes "drawRoomType [0, 1, 2, 3, 4, 5, - 1] 6 ds = None"
  shows "setupRoomFiles (\<lambda>fileNum. True) witnessNames witnessGraph ([0, 1, 2, 3, 4, 5] @- ds) = None"
proof -
  have last: "drawRoomType [0, 1, 2, 3, 4, 5, - 1] (Suc (Suc (Suc (Suc (Suc (Suc 0)))))) ds = None"
    using assms by (simp add: eval_nat_numeral)
  show ?thesis
  unfolding setupRoomFiles_def witnessNames_def witnessGraph_def
  by (simp add: drawRoomType_unique last upt_rec[of _ 7] nameLine_def
      connectionLines.simps connectionLine_def typeLine_def strcpyInto_def showNat.simps
      roomTypeName_def roomNeighbours_def list_update_Cons_numeral replicate_numeral_Cons)
qed

text \<open>
  Claim C4 as stated, for every run in which all seven files open. With the draws
  0, 1, 2, 3, 4, 5 and then 0 for ever, the seven files open and the first six rooms get
  the types 0 to 5, but every draw for the seventh room repeats the type of the first:
  the redraw loop never ends and no role is given to the seventh room.
\<close>

theorem roles_redraw_forever:
  "setupRoomFiles (\<lambda>fileNum. True) witnessNames witnessGraph ([0, 1, 2, 3, 4, 5] @- sconst 0)
     = None"
  by (rule setupRoomFiles_last_draw) (simp add: drawRoomType_zero_forever)

text \<open>
  Claim C4, amended. \<^verbatim>\<open>setupRoomFiles\<close> is given a matrix the generation loop returned and
  seven names of the pool, all seven files open, and the draws keep producing each of the
  numbers 0 to 6. Then it returns without a fault, and \<^verbatim>\<open>roomTypes\<close> holds seven pairwise
  distinct numbers from 0 to 6: exactly one room is typed \<^verbatim>\<open>START_ROOM\<close> (number 0),
  exactly one \<^verbatim>\<open>END_ROOM\<close> (number 6), the other five \<^verbatim>\<open>MID_ROOM\<close>, and the text written
  for room \<open>i\<close> carries the type of \<open>roomTypes ! i\<close>. And whatever the draws, a run that
  returns without a fault has opened all seven files and assigned the roles so.
\<close>

theorem roles_one_start_one_end:
  "((\<forall>i<7. opens i) \<and> generateGraph gs = Some (roomGraph, gs')
        \<and> length selectedRooms = 7 \<and> set selectedRooms \<subseteq> set rooms \<and> fairDraws ds \<longrightarrow>
       (\<exists>types texts ds'.
          setupRoomFiles opens selectedRooms roomGraph ds = Some (Inr (types, texts, ds'))
          \<and> length types = 7 \<and> distinct types \<and> set types = {0..6}
       \<and> length (filter (\<lambda>t. roomTypeName t = ''START_ROOM'') types) = 1
       \<and> length (filter (\<lambda>t. roomTypeName t = ''END_ROOM'') types) = 1
       \<and> length (filter (\<lambda>t. roomTypeName t = ''MID_ROOM'') types) = 5
       \<and> length texts = 7
       \<and> (\<forall>i<7. opens i \<and>
             roomFileText (selectedRooms ! i)
               (map (\<lambda>v. selectedRooms ! nat v) (roomNeighbours roomGraph i))
               (roomTypeName (types ! i)) = Inr (texts ! i))))
   \<and> (setupRoomFiles opens selectedRooms roomGraph rs = Some (Inr (roomTypes, files, rs')) \<longrightarrow>
       length roomTypes = 7 \<and> distinct roomTypes \<and> set roomTypes = {0..6}
       \<and> length (filter (\<lambda>t. roomTypeName t = ''START_ROOM'') roomTypes) = 1
       \<and> length (filter (\<lambda>t. roomTypeName t = ''END_ROOM'') roomTypes) = 1
       \<and> length (filter (\<lambda>t. roomTypeName t = ''MID_ROOM'') roomTypes) = 5
       \<and> length files = 7
       \<and> (\<forall>i<7. opens i \<and>
             roomFileText (selectedRooms ! i)
               (map (\<lambda>v. selectedRooms ! nat v) (roomNeighbours roomGraph i))
               (roomTypeName (roomTypes ! i)) = Inr (files ! i)))"
  (is "(?pre \<longrightarrow> ?returns) \<and> (?ret \<longrightarrow> ?roles)")
proof (rule conjI; rule impI)
  assume a: ?pre
  then have "generateLoop initializeGraph gs = Some (roomGraph, gs')"
    by (simp add: generateGraph_def)
  from generateLoop_sound[OF this graphInv_init] have inv: "graphInv roomGraph" by simp
  from setupLoop_total[OF typesInv_init _ _ _ _ _ inv, of ds opens selectedRooms "[]"] a
  obtain r where "setupRoomFiles opens selectedRooms roomGraph ds = Some (Inr r)"
    by (auto simp: setupRoomFiles_def)
  moreover obtain types texts ds' where "r = (types, texts, ds')" by (cases r)
  ultimately have ret: "setupRoomFiles opens selectedRooms roomGraph ds
      = Some (Inr (types, texts, ds'))" by simp
  from setupRoomFiles_sound[OF ret] ret show ?returns by blast
next
  assume ?ret
  then show ?roles by (rule setupRoomFiles_sound)
qed

lemma setupRoomFiles_witness_run:
  "setupRoomFiles (\<lambda>fileNum. True) witnessNames witnessGraph ([10, 3, 0, 5, 7, 6, 1, 2, 4] @- sconst 0)
     = Some (Inr ([3, 0, 5, 6, 1, 2, 4], witnessFiles, sconst 0))"
  unfolding setupRoomFiles_def witnessNames_def witnessGraph_def witnessFiles_def
  by (simp add: drawRoomType.simps upt_rec[of _ 7] Let_def roomFileText_def nameLine_def connectionLines.simps
      connectionLine_def typeLine_def strcpyInto_def showNat.simps roomTypeName_def roomNeighbours_def
      list_update_Cons_numeral replicate_numeral_Cons)

lemma witnessNames_pool: "length witnessNames = 7 \<and> set witnessNames \<subseteq> set rooms"
  by (simp add: witnessNames_def rooms_def)

theorem roles_one_start_one_end_witness:
  "generateGraph (witnessDraws @- sconst 0) = Some (witnessGraph, sconst 0)
   \<and> length witnessNames = 7 \<and> set witnessNames \<subseteq> set rooms
   \<and> fairDraws (cycle [0, 1, 2, 3, 4, 5, 6])
   \<and> (\<exists>types texts ds'.
         setupRoomFiles (\<lambda>fileNum. True) witnessNames witnessGraph (cycle [0, 1, 2, 3, 4, 5, 6])
           = Some (Inr (types, texts, ds'))
         \<and> length types = 7 \<and> distinct types \<and> set types = {0..6}
         \<and> length (filter (\<lambda>t. roomTypeName t = ''START_ROOM'') types) = 1
         \<and> length (filter (\<lambda>t. roomTypeName t = ''END_ROOM'') types) = 1
         \<and> length (filter (\<lambda>t. roomTypeName t = ''MID_ROOM'') types) = 5
         \<and> length texts = 7
         \<and> (\<forall>i<7. True \<and>
               roomFileText (witnessNames ! i)
                 (map (\<lambda>v. witnessNames ! nat v) (roomNeighbours witnessGraph i))
                 (roomTypeName (types ! i)) = Inr (texts ! i)))
   \<and> setupRoomFiles (\<lambda>fileNum. True) witnessNames witnessGraph
       ([10, 3, 0, 5, 7, 6, 1, 2, 4] @- sconst 0)
     = Some (Inr ([3, 0, 5, 6, 1, 2, 4], witnessFiles, sconst 0))
   \<and> distinct [3, 0, 5, 6, 1, 2, 4 :: int]
   \<and> set [3, 0, 5, 6, 1, 2, 4 :: int] = {0..6}
   \<and> length (filter (\<lambda>t. roomTypeName t = ''START_ROOM'') [3, 0, 5, 6, 1, 2, 4]) = 1
   \<and> length (filter (\<lambda>t. roomTypeName t = ''END_ROOM'') [3, 0, 5, 6, 1, 2, 4]) = 1
   \<and> length (filter (\<lambda>t. roomTypeName t = ''MID_ROOM'') [3, 0, 5, 6, 1, 2, 4]) = 5
   \<and> roomFileText (witnessNames ! 1)
         (map (\<lambda>v. witnessNames ! nat v) (roomNeighbours witnessGraph 1))
         (roomTypeName ([3, 0, 5, 6, 1, 2, 4] ! 1)) = Inr (witnessFiles ! 1)"
proof -
  have pre: "(\<forall>i<7. (\<lambda>fileNum. True) i)
      \<and> generateGraph (witnessDraws @- sconst 0) = Some (witnessGraph, sconst 0)
      \<and> length witnessNames = 7 \<and> set witnessNames \<subseteq> set rooms
      \<and> fairDraws (cycle [0, 1, 2, 3, 4, 5, 6])"
    using generateGraph_witnessDraws witnessNames_pool fairDraws_cycle by simp
  note 1 = roles_one_start_one_end[of "\<lambda>fileNum. True" "witnessDraws @- sconst 0" witnessGraph
      "sconst 0" witnessNames "cycle [0, 1, 2, 3, 4, 5, 6]", THEN conjunct1, THEN mp, OF pre]
  note 2 = roles_one_start_one_end[of "\<lambda>fileNum. True" _ witnessGraph _ witnessNames _
      "[10, 3, 0, 5, 7, 6, 1, 2, 4] @- sconst 0" "[3, 0, 5, 6, 1, 2, 4]" witnessFiles "sconst 0",
      THEN conjunct2, THEN mp, OF setupRoomFiles_witness_run]
  have "(1::nat) < 7" by simp
  with 2 have 3: "distinct [3, 0, 5, 6, 1, 2, 4 :: int]"
    "set [3, 0, 5, 6, 1, 2, 4 :: int] = {0..6}"
    "length (filter (\<lambda>t. roomTypeName t = ''START_ROOM'') [3, 0, 5, 6, 1, 2, 4]) = 1"
    "length (filter (\<lambda>t. roomTypeName t = ''END_ROOM'') [3, 0, 5, 6, 1, 2, 4]) = 1"
    "length (filter (\<lambda>t. roomTypeName t = ''MID_ROOM'') [3, 0, 5, 6, 1, 2, 4]) = 5"
    "roomFileText (witnessNames ! 1)
         (map (\<lambda>v. witnessNames ! nat v) (roomNeighbours witnessGraph 1))
         (roomTypeName ([3, 0, 5, 6, 1, 2, 4] ! 1)) = Inr (witnessFiles ! 1)"
    by blast+
  show ?thesis
    by (intro conjI 1 3 setupRoomFiles_witness_run generateGraph_witnessDraws fairDraws_cycle
        witnessNames_pool[THEN conjunct1] witnessNames_pool[THEN conjunct2])
qed

section \<open>The most recent rooms directory\<close>

lemma scanDir_keeps:
  assumes "\<forall>(n', T') \<in> set es. strstr n' ''trompj.rooms.'' \<longrightarrow> signed_take_bit 31 T' \<le> m"
  shows "scanDir es (m, d) = Inr (m, d)"
  using assms by (induction es) auto

lemma scanDir_finds:
  assumes "(n, T) \<in> set es" "strstr n ''trompj.rooms.''" "m < T"
    "\<forall>(n', T') \<in> set es. strstr n' ''trompj.rooms.'' \<longrightarrow>
        signed_take_bit 31 T' = T' \<and> length n' < 128 \<and> ((n', T') \<noteq> (n, T) \<longrightarrow> T' < T)"
  shows "scanDir es (m, d) = Inr (T, n)"
  using assms
proof (induction es arbitrary: m d)
  case Nil
  then show ?case by simp
next
  case (Cons e es)
  obtain n' T' where e: "e = (n', T')" by (cases e)
  have rest: "\<forall>(n', T') \<in> set es. strstr n' ''trompj.rooms.'' \<longrightarrow>
        signed_take_bit 31 T' = T' \<and> length n' < 128 \<and> ((n', T') \<noteq> (n, T) \<longrightarrow> T' < T)"
    using Cons.prems(4) by simp
  show ?case
  proof (cases "e = (n, T)")
    case True
    have self: "signed_take_bit 31 T = T" "length n < 128"
      using Cons.prems(2,4) True by auto
    have "\<forall>(n', T') \<in> set es. strstr n' ''trompj.rooms.'' \<longrightarrow> signed_take_bit 31 T' \<le> T"
      using rest by force
    from scanDir_keeps[OF this, of n] show ?thesis
      using True Cons.prems(2,3) self by (simp add: strcpyInto_def)
  next
    case False
    then have mem: "(n, T) \<in> set es" using Cons.prems(1) by simp
    show ?thesis
    proof (cases "strstr n' ''trompj.rooms.''")
      case cand: True
      then have p: "signed_take_bit 31 T' = T'" "length n' < 128" "T' < T"
        using Cons.prems(4) False e by auto
      show ?thesis
      proof (cases "T' > m")
        case True
        from Cons.IH[OF mem Cons.prems(2) p(3) rest, of n'] show ?thesis
          using cand p True by (simp add: e strcpyInto_def)
      next
        case False
        from Cons.IH[OF mem Cons.prems(2,3) rest, of d] show ?thesis
          using cand p False by (simp add: e)
      qed
    next
      case False
      from Cons.IH[OF mem Cons.prems(2,3) rest, of d] show ?thesis
        using False by (simp add: e)
    qed
  qed
qed

text \<open>
  Where the scan does find the newest directory: when the entries whose name contains
  \<^verbatim>\<open>trompj.rooms.\<close> are three, with modification times \<open>0 \<le> T1 < T2 < T3 < 2^31\<close> and
  names shorter than the 128 bytes of \<^verbatim>\<open>dirName\<close>, then \<^verbatim>\<open>mostRecentRooms\<close> leaves the
  name of the entry modified at \<open>T3\<close> in \<^verbatim>\<open>dirName\<close>, in whatever order the directory
  lists its entries.
\<close>

theorem most_recent_of_three:
  assumes "set (filter (\<lambda>e. strstr (fst e) ''trompj.rooms.'') entries) = {(n1, T1), (n2, T2), (n3, T3)}"
    "0 \<le> T1" "T1 < T2" "T2 < T3" "T3 < 2 ^ 31"
    "length n1 < 128" "length n2 < 128" "length n3 < 128"
  shows "mostRecentRooms (Some entries) = Inr n3"
proof -
  have cands: "\<And>n T. (n, T) \<in> set entries \<Longrightarrow> strstr n ''trompj.rooms.'' \<Longrightarrow>
      (n, T) = (n1, T1) \<or> (n, T) = (n2, T2) \<or> (n, T) = (n3, T3)"
  proof -
    fix n T assume "(n, T) \<in> set entries" "strstr n ''trompj.rooms.''"
    then have "(n, T) \<in> set (filter (\<lambda>e. strstr (fst e) ''trompj.rooms.'') entries)" by simp
    then show "(n, T) = (n1, T1) \<or> (n, T) = (n2, T2) \<or> (n, T) = (n3, T3)"
      unfolding assms(1) by blast
  qed
  have "(n3, T3) \<in> set (filter (\<lambda>e. strstr (fst e) ''trompj.rooms.'') entries)"
    unfolding assms(1) by simp
  then have mem: "(n3, T3) \<in> set entries" and c3: "strstr n3 ''trompj.rooms.''" by simp_all
  have stb: "signed_take_bit 31 T = T" if "0 \<le> T" "T \<le> T3" for T
    using that assms(5) by (intro signed_take_bit_int_eq_self) simp_all
  have "\<forall>(n', T') \<in> set entries. strstr n' ''trompj.rooms.'' \<longrightarrow>
        signed_take_bit 31 T' = T' \<and> length n' < 128 \<and> ((n', T') \<noteq> (n3, T3) \<longrightarrow> T' < T3)"
  proof (clarify, goal_cases)
    case (1 n' T')
    from cands[OF 1] show ?case
      using assms(2-) stb by (elim disjE) auto
  qed
  from scanDir_finds[OF mem c3 _ this, of "- 1" "[]"] assms(2-4)
  show ?thesis by (simp add: mostRecentRooms_def)
qed

text \<open>
  Claim C6, that of three directories modified at \<open>T1 < T2 < T3\<close> the one modified at
  \<open>T3\<close> is chosen, at two listings. With the times 1000, 2000 and \<open>2^31\<close> seconds (19
  January 2038) the newest time becomes negative in the cast to \<^verbatim>\<open>int\<close> and the directory
  modified at 2000 is stored; with three times before 1970 none exceeds the initial
  \<^verbatim>\<open>newestModified = -1\<close> and no name is stored at all. The function's own description
  promises the most recent directory name in \<^verbatim>\<open>dirName\<close>.
\<close>

theorem most_recent_after_2038_or_before_1970:
  "mostRecentRooms (Some [(''trompj.rooms.1'', 1000), (''trompj.rooms.2'', 2000),
                          (''trompj.rooms.3'', 2147483648)]) = Inr ''trompj.rooms.2''
   \<and> mostRecentRooms (Some [(''trompj.rooms.1'', - 30), (''trompj.rooms.2'', - 20),
                            (''trompj.rooms.3'', - 10)]) = Inr []"
  by code_simp

lemma exampleDirectory_candidates:
  "set (filter (\<lambda>e. strstr (fst e) ''trompj.rooms.'') exampleDirectory)
     = {(''trompj.rooms.12'', 1000), (''trompj.rooms.77'', 2000), (''trompj.rooms.99'', 3000)}"
  unfolding exampleDirectory_def by (simp add: insert_commute)

theorem most_recent_of_three_witness:
  "set (filter (\<lambda>e. strstr (fst e) ''trompj.rooms.'') exampleDirectory)
     = {(''trompj.rooms.12'', 1000), (''trompj.rooms.77'', 2000), (''trompj.rooms.99'', 3000)}
   \<and> (0::int) \<le> 1000 \<and> (1000::int) < 2000 \<and> (2000::int) < 3000 \<and> (3000::int) < 2 ^ 31
   \<and> length ''trompj.rooms.12'' < 128 \<and> length ''trompj.rooms.77'' < 128
   \<and> length ''trompj.rooms.99'' < 128
   \<and> mostRecentRooms (Some exampleDirectory) = Inr ''trompj.rooms.99''"
  using most_recent_of_three[OF exampleDirectory_candidates] exampleDirectory_candidates by simp

section \<open>The game loop\<close>

lemma promptInput_line:
  assumes "fitsCommand c"
  shows "promptInput (c @ CHR 0x0A # rest) = Inr (c, rest)"
proof -
  have nl: "CHR 0x0A \<notin> set c" and len: "length c < 255" and nul: "CHR 0x00 \<notin> set (c @ [CHR 0x0A])"
    using assms by (auto simp: fitsCommand_def)
  have "fgets 256 (c @ CHR 0x0A # rest) = Some (c @ [CHR 0x0A], rest)"
    using fgetsLine_line[OF nl len, of rest] by (simp add: fgets_def)
  moreover have "cstring (c @ [CHR 0x0A]) = c @ [CHR 0x0A]" by (rule cstring_id[OF nul])
  moreover have "length (c @ [CHR 0x0A]) < 10" using assms by (simp add: fitsCommand_def)
  ultimately show ?thesis by (simp add: promptInput_def strcpyInto_def)
qed

lemma wellFormed_room:
  assumes "wellFormedRooms roomArr" "i < 7"
  shows "\<exists>name ty. roomName (roomArr ! i) = Some name \<and> fitsCommand name
            \<and> roomType (roomArr ! i) = Some ty"
proof -
  have "roomArr ! i \<in> set roomArr" using assms by (simp add: wellFormedRooms_def)
  then show ?thesis
    using assms(1) by (auto simp: wellFormedRooms_def list_all_iff split: option.splits)
qed

lemma wellFormed_unique:
  assumes "wellFormedRooms roomArr" "i < 7" "j < 7" "roomName (roomArr ! i) = roomName (roomArr ! j)"
  shows "i = j"
proof -
  have "distinct (map roomName roomArr)" "length roomArr = 7"
    using assms(1) by (simp_all add: wellFormedRooms_def)
  then show ?thesis using assms(2-) by (auto simp: distinct_conv_nth)
qed

lemma enterRooms_unique:
  assumes "\<forall>i\<in>set idxs. \<exists>name. roomName (roomArr ! i) = Some name \<and> (name = userInputRoom s \<longleftrightarrow> i = j)"
    "distinct idxs"
  shows "enterRooms roomArr idxs (s, f)
           = Inr (if j \<in> set idxs
                  then (s\<lparr>currentRoom := j, stepCount := stepCount s + 1,
                          visitedRooms := visitedRooms s @ [userInputRoom s]\<rparr>, 1)
                  else (s, f))"
  using assms
proof (induction idxs arbitrary: s f)
  case Nil
  then show ?case by simp
next
  case (Cons i idxs)
  from Cons.prems(1) obtain name where nm: "roomName (roomArr ! i) = Some name"
    "name = userInputRoom s \<longleftrightarrow> i = j" by auto
  have d: "distinct idxs" "i \<notin> set idxs" using Cons.prems(2) by simp_all
  show ?case
  proof (cases "i = j")
    case True
    let ?s' = "s\<lparr>currentRoom := j, stepCount := stepCount s + 1,
                  visitedRooms := visitedRooms s @ [userInputRoom s]\<rparr>"
    have "\<forall>i\<in>set idxs. \<exists>name. roomName (roomArr ! i) = Some name
             \<and> (name = userInputRoom ?s' \<longleftrightarrow> i = j)"
      using Cons.prems(1) by simp
    from Cons.IH[OF this d(1), of 1] d(2) True nm show ?thesis by simp
  next
    case False
    have "\<forall>i\<in>set idxs. \<exists>name. roomName (roomArr ! i) = Some name
             \<and> (name = userInputRoom s \<longleftrightarrow> i = j)"
      using Cons.prems(1) by simp
    from Cons.IH[OF this d(1), of f] False nm show ?thesis by simp
  qed
qed

lemma enterRooms_named:
  assumes "wellFormedRooms roomArr" "j < 7" "roomName (roomArr ! j) = Some (userInputRoom s)"
  shows "enterRooms roomArr [0..<7] (s, 0)
           = Inr (s\<lparr>currentRoom := j, stepCount := stepCount s + 1,
                    visitedRooms := visitedRooms s @ [userInputRoom s]\<rparr>, 1)"
proof -
  have "\<forall>i\<in>set [0..<7]. \<exists>name. roomName (roomArr ! i) = Some name
           \<and> (name = userInputRoom s \<longleftrightarrow> i = j)"
  proof
    fix i assume "i \<in> set [0..<7]"
    then have i: "i < 7" by simp
    from wellFormed_room[OF assms(1) i] obtain name where nm: "roomName (roomArr ! i) = Some name"
      by blast
    have "name = userInputRoom s \<longleftrightarrow> i = j"
      using wellFormed_unique[OF assms(1) i assms(2)] nm assms(3) by auto
    with nm show "\<exists>name. roomName (roomArr ! i) = Some name \<and> (name = userInputRoom s \<longleftrightarrow> i = j)"
      by blast
  qed
  from enterRooms_unique[OF this, of 0] assms(2) show ?thesis by simp
qed

lemma showRoom_ok:
  assumes "wellFormedRooms roomArr" "currentRoom s < 7"
  shows "\<exists>p. showRoom roomArr s = Inr (s\<lparr>printed := printed s @ p\<rparr>)"
proof -
  from wellFormed_room[OF assms] obtain name where "roomName (roomArr ! currentRoom s) = Some name"
    by blast
  then show ?thesis
    unfolding showRoom_def by (cases "userInputRoom s \<noteq> ''time''") (simp_all, (rule exI, rule refl)+)
qed

lemma gameTurn_move:
  assumes "wellFormedRooms roomArr" "currentRoom s < 7"
    "n \<in> set (connectionNames (roomArr ! currentRoom s))" "j < 7" "roomName (roomArr ! j) = Some n"
  shows "\<exists>s' before. gameTurn roomArr clock s (n @ CHR 0x0A # rest)
             = Inr ((s', roomType (roomArr ! j) = Some ''END_ROOM''), rest)
           \<and> currentRoom s' = j \<and> stepCount s' = stepCount s + 1
           \<and> visitedRooms s' = visitedRooms s @ [n]
           \<and> printed s' = before @ (if roomType (roomArr ! j) = Some ''END_ROOM''
                                     then victoryLines (stepCount s + 1) (visitedRooms s @ [n])
                                     else [])"
proof -
  from showRoom_ok[OF assms(1,2)] obtain p where
    show1: "showRoom roomArr s = Inr (s\<lparr>printed := printed s @ p\<rparr>)" by blast
  from wellFormed_room[OF assms(1,4)] assms(5) obtain ty where
    fits: "fitsCommand n" and ty: "roomType (roomArr ! j) = Some ty" by auto
  have inp: "promptInput (n @ CHR 0x0A # rest) = Inr (n, rest)" by (rule promptInput_line[OF fits])
  let ?s2 = "s\<lparr>printed := printed s @ p, userInputRoom := n\<rparr>"
  let ?s3 = "?s2\<lparr>currentRoom := j, stepCount := stepCount ?s2 + 1,
                visitedRooms := visitedRooms ?s2 @ [userInputRoom ?s2]\<rparr>"
  have enter: "enterRooms roomArr [0..<7] (?s2, 0) = Inr (?s3, 1)"
    by (rule enterRooms_named[OF assms(1,4)]) (simp add: assms(5))
  have matched: "userInputRoom ?s2 \<in> set (connectionNames (roomArr ! currentRoom ?s2))"
    using assms(3) by simp
  show ?thesis
  proof (cases "ty = ''END_ROOM''")
    case True
    let ?s' = "?s3\<lparr>printed := printed ?s3 @ [[CHR 0x0A]]
                  @ victoryLines (stepCount s + 1) (visitedRooms s @ [n])\<rparr>"
    have "playTurn roomArr clock ?s2 = Inr (?s', True)"
      unfolding playTurn_def using matched enter ty True
      by (simp add: Let_def victoryLines_def)
    then have "gameTurn roomArr clock s (n @ CHR 0x0A # rest)
                 = Inr ((?s', roomType (roomArr ! j) = Some ''END_ROOM''), rest)"
      using show1 inp ty True by (simp add: gameTurn_def)
    moreover have "printed ?s' = (printed s @ p @ [[CHR 0x0A]])
        @ (if roomType (roomArr ! j) = Some ''END_ROOM''
           then victoryLines (stepCount s + 1) (visitedRooms s @ [n]) else [])"
      using ty True by simp
    moreover have "currentRoom ?s' = j" "stepCount ?s' = stepCount s + 1"
      "visitedRooms ?s' = visitedRooms s @ [n]" by simp_all
    ultimately show ?thesis by blast
  next
    case False
    let ?s' = "?s3\<lparr>printed := printed ?s3 @ [[CHR 0x0A]]\<rparr>"
    have "playTurn roomArr clock ?s2 = Inr (?s', False)"
      unfolding playTurn_def using matched enter ty False
      by (simp add: Let_def)
    then have "gameTurn roomArr clock s (n @ CHR 0x0A # rest)
                 = Inr ((?s', roomType (roomArr ! j) = Some ''END_ROOM''), rest)"
      using show1 inp ty False by (simp add: gameTurn_def)
    moreover have "printed ?s' = (printed s @ p @ [[CHR 0x0A]])
        @ (if roomType (roomArr ! j) = Some ''END_ROOM''
           then victoryLines (stepCount s + 1) (visitedRooms s @ [n]) else [])"
      using ty False by simp
    moreover have "currentRoom ?s' = j" "stepCount ?s' = stepCount s + 1"
      "visitedRooms ?s' = visitedRooms s @ [n]" by simp_all
    ultimately show ?thesis by blast
  qed
qed

lemma gameLoop_path:
  assumes "wellFormedRooms roomArr" "currentRoom s < 7" "leadsToEnd roomArr (currentRoom s) names"
    "names \<noteq> []"
  shows "\<exists>s' before. gameLoop roomArr clock s (inputLines names @ rest) = Inr s'
           \<and> stepCount s' = stepCount s + length names
           \<and> visitedRooms s' = visitedRooms s @ names
           \<and> roomName (roomArr ! currentRoom s') = Some (last names)
           \<and> roomType (roomArr ! currentRoom s') = Some ''END_ROOM''
           \<and> printed s' = before @ victoryLines (stepCount s + length names) (visitedRooms s @ names)"
  using assms(2-)
proof (induction names arbitrary: s)
  case Nil
  then show ?case by simp
next
  case (Cons n ns)
  from Cons.prems(2) obtain j where notEnd: "roomType (roomArr ! currentRoom s) \<noteq> Some ''END_ROOM''"
    and conn: "n \<in> set (connectionNames (roomArr ! currentRoom s))"
    and j: "j < 7" "roomName (roomArr ! j) = Some n" and tail: "leadsToEnd roomArr j ns"
    by (auto simp: list_ex_iff)
  from wellFormed_room[OF assms(1) Cons.prems(1)] notEnd obtain ty where
    ty: "roomType (roomArr ! currentRoom s) = Some ty" "ty \<noteq> ''END_ROOM''" by auto
  let ?stdin = "n @ CHR 0x0A # (inputLines ns @ rest)"
  have stdin: "inputLines (n # ns) @ rest = ?stdin" by (simp add: inputLines_def)
  from gameTurn_move[OF assms(1) Cons.prems(1) conn j, of clock "inputLines ns @ rest"]
  obtain s1 before where turn: "gameTurn roomArr clock s ?stdin
             = Inr ((s1, roomType (roomArr ! j) = Some ''END_ROOM''), inputLines ns @ rest)"
    and s1: "currentRoom s1 = j" "stepCount s1 = stepCount s + 1"
      "visitedRooms s1 = visitedRooms s @ [n]"
    and pr: "printed s1 = before @ (if roomType (roomArr ! j) = Some ''END_ROOM''
                                     then victoryLines (stepCount s + 1) (visitedRooms s @ [n])
                                     else [])"
    by blast
  show ?case
  proof (cases ns)
    case Nil
    with tail have isEnd: "roomType (roomArr ! j) = Some ''END_ROOM''" by simp
    have "gameLoop roomArr clock s ?stdin = Inr s1"
      by (subst gameLoop.simps) (simp add: ty turn isEnd)
    then show ?thesis
      unfolding stdin using s1 pr isEnd j Nil by auto
  next
    case (Cons n2 ns2)
    with tail have notEnd1: "roomType (roomArr ! j) \<noteq> Some ''END_ROOM''" by simp
    have loop: "gameLoop roomArr clock s ?stdin = gameLoop roomArr clock s1 (inputLines ns @ rest)"
      by (subst gameLoop.simps) (simp add: ty turn notEnd1)
    have "ns \<noteq> []" using Cons by simp
    from Cons.IH[of s1] s1(1) j(1) tail this
    obtain s' before' where r: "gameLoop roomArr clock s1 (inputLines ns @ rest) = Inr s'"
      "stepCount s' = stepCount s1 + length ns"
      "visitedRooms s' = visitedRooms s1 @ ns"
      "roomName (roomArr ! currentRoom s') = Some (last ns)"
      "roomType (roomArr ! currentRoom s') = Some ''END_ROOM''"
      "printed s' = before' @ victoryLines (stepCount s1 + length ns) (visitedRooms s1 @ ns)"
      by (metis Cons.IH)
    show ?thesis
      unfolding stdin loop using r s1 \<open>ns \<noteq> []\<close> by auto
  qed
qed

lemma findStart_sound:
  assumes "findStart roomArr idxs cur = Inr (Some k)"
    "\<forall>c. cur = Some c \<longrightarrow> c < 7 \<and> roomType (roomArr ! c) = Some ''START_ROOM''"
    "\<forall>i\<in>set idxs. i < 7"
  shows "k < 7 \<and> roomType (roomArr ! k) = Some ''START_ROOM''"
  using assms
proof (induction idxs arbitrary: cur)
  case Nil
  then show ?case by simp
next
  case (Cons i idxs)
  from Cons.prems(1) obtain ty where ty: "roomType (roomArr ! i) = Some ty"
    and r: "findStart roomArr idxs (if ty = ''START_ROOM'' then Some i else cur) = Inr (Some k)"
    by (auto split: option.splits)
  have "\<forall>c. (if ty = ''START_ROOM'' then Some i else cur) = Some c
          \<longrightarrow> c < 7 \<and> roomType (roomArr ! c) = Some ''START_ROOM''"
    using Cons.prems(2,3) ty by auto
  from Cons.IH[OF r this] Cons.prems(3) show ?case by simp
qed

text \<open>
  Claim C5. The rooms are well formed, the game starts in the room \<^verbatim>\<open>runGameDriver\<close> finds,
  and the input is a sequence of connection names that leads from there to the end room,
  one per line. Then the game ends with a step count equal to the length of the
  sequence and a visited path equal to the sequence, and the last things printed are the
  victory message with that count and the names in the order of the input. Each accepted
  move makes the named room the current room, appends its name to the path and adds one
  step.
\<close>

theorem scripted_walk_reaches_end:
  assumes "wellFormedRooms roomArr" "findStart roomArr [0..<7] None = Inr (Some start)"
    "leadsToEnd roomArr start names"
  shows "(\<exists>s before. runGameDriver roomArr clock (inputLines names @ rest) = Inr s
            \<and> stepCount s = length names \<and> visitedRooms s = names
            \<and> roomType (roomArr ! currentRoom s) = Some ''END_ROOM''
            \<and> printed s = before @ victoryLines (length names) names)
       \<and> (\<forall>s n j more. currentRoom s < 7 \<and> n \<in> set (connectionNames (roomArr ! currentRoom s))
              \<and> j < 7 \<and> roomName (roomArr ! j) = Some n \<longrightarrow>
            (\<exists>s' won. gameTurn roomArr clock s (n @ CHR 0x0A # more) = Inr ((s', won), more)
               \<and> currentRoom s' = j \<and> roomName (roomArr ! currentRoom s') = Some n
               \<and> visitedRooms s' = visitedRooms s @ [n]
               \<and> stepCount s' = stepCount s + 1))"
proof (intro conjI allI impI)
  from findStart_sound[OF assms(2)] have st: "start < 7"
    "roomType (roomArr ! start) = Some ''START_ROOM''" by simp_all
  have ne: "names \<noteq> []" using assms(3) st(2) by (cases names) auto
  let ?s0 = "\<lparr>currentRoom = start, stepCount = 0, userInputRoom = [], visitedRooms = [],
             printed = [], timeRequests = 0\<rparr>"
  from gameLoop_path[OF assms(1), of ?s0 names clock rest] st(1) assms(3) ne
  obtain s' before where "gameLoop roomArr clock ?s0 (inputLines names @ rest) = Inr s'"
    "stepCount s' = length names" "visitedRooms s' = names"
    "roomType (roomArr ! currentRoom s') = Some ''END_ROOM''"
    "printed s' = before @ victoryLines (length names) names"
    by auto
  then show "\<exists>s before. runGameDriver roomArr clock (inputLines names @ rest) = Inr s
            \<and> stepCount s = length names \<and> visitedRooms s = names
            \<and> roomType (roomArr ! currentRoom s) = Some ''END_ROOM''
            \<and> printed s = before @ victoryLines (length names) names"
    using assms(2) by (auto simp: runGameDriver_def)
next
  fix s :: game and n j more
  assume a: "currentRoom s < 7 \<and> n \<in> set (connectionNames (roomArr ! currentRoom s))
              \<and> j < 7 \<and> roomName (roomArr ! j) = Some n"
  from gameTurn_move[OF assms(1), of s n j clock more] a
  show "\<exists>s' won. gameTurn roomArr clock s (n @ CHR 0x0A # more) = Inr ((s', won), more)
               \<and> currentRoom s' = j \<and> roomName (roomArr ! currentRoom s') = Some n
               \<and> visitedRooms s' = visitedRooms s @ [n]
               \<and> stepCount s' = stepCount s + 1"
    by auto
qed

lemma witnessRooms_facts:
  "wellFormedRooms witnessRooms \<and> findStart witnessRooms [0..<7] None = Inr (Some 1)
   \<and> leadsToEnd witnessRooms 1 witnessWalk"
  by code_simp

lemma witnessRooms_read: "map readFile witnessFiles = map Inr witnessRooms"
  by code_simp

lemma witnessWalk_run:
  "map_sum id (\<lambda>s. (currentRoom s, stepCount s, visitedRooms s))
      (runGameDriver witnessRooms witnessClock (inputLines witnessWalk))
     = Inr (3, 4, witnessWalk)"
  by code_simp

lemma witness_first_move:
  "(1::nat) < 7 \<and> ''Dungeon'' \<in> set (connectionNames (witnessRooms ! 1)) \<and> (0::nat) < 7
   \<and> roomName (witnessRooms ! 0) = Some ''Dungeon''"
  by code_simp

theorem scripted_walk_reaches_end_witness:
  "wellFormedRooms witnessRooms \<and> findStart witnessRooms [0..<7] None = Inr (Some 1)
   \<and> leadsToEnd witnessRooms 1 witnessWalk
   \<and> (\<exists>s before. runGameDriver witnessRooms witnessClock (inputLines witnessWalk @ []) = Inr s
          \<and> stepCount s = length witnessWalk \<and> visitedRooms s = witnessWalk
          \<and> roomType (witnessRooms ! currentRoom s) = Some ''END_ROOM''
          \<and> printed s = before @ victoryLines (length witnessWalk) witnessWalk)
   \<and> currentRoom atStart < 7
   \<and> ''Dungeon'' \<in> set (connectionNames (witnessRooms ! currentRoom atStart))
   \<and> roomName (witnessRooms ! 0) = Some ''Dungeon''
   \<and> (\<exists>s' won. gameTurn witnessRooms witnessClock atStart (''Dungeon'' @ CHR 0x0A # ''Kitchen'')
            = Inr ((s', won), ''Kitchen'')
          \<and> currentRoom s' = 0 \<and> roomName (witnessRooms ! currentRoom s') = Some ''Dungeon''
          \<and> visitedRooms s' = visitedRooms atStart @ [''Dungeon'']
          \<and> stepCount s' = stepCount atStart + 1)"
proof -
  have f: "wellFormedRooms witnessRooms" "findStart witnessRooms [0..<7] None = Inr (Some 1)"
    "leadsToEnd witnessRooms 1 witnessWalk" using witnessRooms_facts by simp_all
  note t = scripted_walk_reaches_end[OF f, of witnessClock "[]"]
  have m: "currentRoom atStart < 7"
    "''Dungeon'' \<in> set (connectionNames (witnessRooms ! currentRoom atStart))"
    "(0::nat) < 7" "roomName (witnessRooms ! 0) = Some ''Dungeon''"
    using witness_first_move by (simp_all add: atStart_def)
  from t have 1: "\<exists>s before. runGameDriver witnessRooms witnessClock (inputLines witnessWalk @ []) = Inr s
          \<and> stepCount s = length witnessWalk \<and> visitedRooms s = witnessWalk
          \<and> roomType (witnessRooms ! currentRoom s) = Some ''END_ROOM''
          \<and> printed s = before @ victoryLines (length witnessWalk) witnessWalk" by blast
  from t m have 2: "\<exists>s' won. gameTurn witnessRooms witnessClock atStart (''Dungeon'' @ CHR 0x0A # ''Kitchen'')
            = Inr ((s', won), ''Kitchen'')
          \<and> currentRoom s' = 0 \<and> roomName (witnessRooms ! currentRoom s') = Some ''Dungeon''
          \<and> visitedRooms s' = visitedRooms atStart @ [''Dungeon'']
          \<and> stepCount s' = stepCount atStart + 1" by blast
  from f m 1 2 show ?thesis by blast
qed

text \<open>
  What holds of an unrecognised command that fits \<^verbatim>\<open>userInputRoom\<close> and ends in a newline:
  the apology is printed, the current room, the path and the step count stay, and a valid
  move still succeeds afterwards.
\<close>

lemma unknown_command_keeps_state:
  assumes "wellFormedRooms roomArr" "currentRoom s < 7" "fitsCommand c"
    "c \<notin> set (connectionNames (roomArr ! currentRoom s))" "c \<noteq> ''time''"
  shows "\<exists>s' p. gameTurn roomArr clock s (c @ CHR 0x0A # rest) = Inr ((s', False), rest)
           \<and> currentRoom s' = currentRoom s \<and> visitedRooms s' = visitedRooms s
           \<and> stepCount s' = stepCount s \<and> printed s' = printed s @ p @ [apology]"
proof -
  from showRoom_ok[OF assms(1,2)] obtain p where
    show1: "showRoom roomArr s = Inr (s\<lparr>printed := printed s @ p\<rparr>)" by blast
  have inp: "promptInput (c @ CHR 0x0A # rest) = Inr (c, rest)" by (rule promptInput_line[OF assms(3)])
  let ?s2 = "s\<lparr>printed := printed s @ p, userInputRoom := c\<rparr>"
  let ?s' = "?s2\<lparr>printed := printed ?s2 @ [[CHR 0x0A]] @ [apology]\<rparr>"
  have "playTurn roomArr clock ?s2 = Inr (?s', False)"
    unfolding playTurn_def using assms(4,5) by (simp add: Let_def)
  then have "gameTurn roomArr clock s (c @ CHR 0x0A # rest) = Inr ((?s', False), rest)"
    using show1 inp by (simp add: gameTurn_def)
  moreover have "printed ?s' = printed s @ (p @ [[CHR 0x0A]]) @ [apology]" by simp
  moreover have "currentRoom ?s' = currentRoom s" "visitedRooms ?s' = visitedRooms s"
    "stepCount ?s' = stepCount s" by simp_all
  ultimately show ?thesis by blast
qed

lemma move_after_unknown_command:
  assumes "wellFormedRooms roomArr" "currentRoom s < 7" "fitsCommand c"
    "c \<notin> set (connectionNames (roomArr ! currentRoom s))" "c \<noteq> ''time''"
    "n \<in> set (connectionNames (roomArr ! currentRoom s))" "j < 7" "roomName (roomArr ! j) = Some n"
  shows "\<exists>s1 s2 won. gameTurn roomArr clock s (c @ CHR 0x0A # n @ CHR 0x0A # rest)
             = Inr ((s1, False), n @ CHR 0x0A # rest)
           \<and> gameTurn roomArr clock s1 (n @ CHR 0x0A # rest) = Inr ((s2, won), rest)
           \<and> currentRoom s2 = j \<and> visitedRooms s2 = visitedRooms s @ [n]
           \<and> stepCount s2 = stepCount s + 1"
proof -
  from unknown_command_keeps_state[OF assms(1-5), of clock "n @ CHR 0x0A # rest"]
  obtain s1 where 1: "gameTurn roomArr clock s (c @ CHR 0x0A # n @ CHR 0x0A # rest)
             = Inr ((s1, False), n @ CHR 0x0A # rest)"
    "currentRoom s1 = currentRoom s" "visitedRooms s1 = visitedRooms s" "stepCount s1 = stepCount s"
    by blast
  from gameTurn_move[OF assms(1), of s1 n j clock rest] 1(2) assms(2,6-8)
  obtain s2 won where "gameTurn roomArr clock s1 (n @ CHR 0x0A # rest) = Inr ((s2, won), rest)"
    "currentRoom s2 = j" "visitedRooms s2 = visitedRooms s1 @ [n]" "stepCount s2 = stepCount s1 + 1"
    by auto
  with 1 show ?thesis by auto
qed

text \<open>
  Claim C7 at two input lines that are neither a connection of the current room nor
  \<^verbatim>\<open>time\<close>. The last line of the input without a newline, \<^verbatim>\<open>Dungeonx\<close>, loses its \<^verbatim>\<open>x\<close>
  and moves the player to \<^verbatim>\<open>Dungeon\<close>; a line of seventeen bytes is copied past the end of
  the ten bytes of \<^verbatim>\<open>userInputRoom\<close>.
\<close>

theorem unknown_line_moves_or_overflows:
  "''Dungeonx'' \<notin> set (connectionNames (witnessRooms ! currentRoom atStart))
   \<and> map_sum id (\<lambda>r. (currentRoom (fst (fst r)), stepCount (fst (fst r)), visitedRooms (fst (fst r))))
        (gameTurn witnessRooms witnessClock atStart ''Dungeonx'')
      = Inr (0, 1, [''Dungeon''])
   \<and> ''the dark dungeon'' \<notin> set (connectionNames (witnessRooms ! currentRoom atStart))
   \<and> gameTurn witnessRooms witnessClock atStart ''the dark dungeon\<newline>Dungeon\<newline>''
      = Inl BufferOverflow"
  by code_simp

text \<open>
  Claim C8 at the same two lines: the command compared for \<^verbatim>\<open>Dungeonx\<close> without a newline
  is \<^verbatim>\<open>Dungeon\<close>, a byte that is no newline being removed, and the long line overruns
  \<^verbatim>\<open>userInputRoom\<close> before anything is compared. For a line of at most eight bytes
  followed by a newline the command is the line without the newline (lemma
  \<open>promptInput_line\<close>).
\<close>

theorem command_loses_last_byte_or_overflows:
  "promptInput ''Dungeonx'' = Inr (''Dungeon'', [])
   \<and> promptInput ''the dark dungeon\<newline>Dungeon\<newline>'' = Inl BufferOverflow"
  by code_simp

end
